theory Spec2Isabelle
  imports Main "HOL-Library.Word"
begin

unbundle bit_operations_syntax

section \<open>The MicroPython component of LionsOS: event state and the two cothreads\<close>

text \<open>
  The component \<^verbatim>\<open>components/micropython/micropython.c\<close> runs a MicroPython
  interpreter inside one Microkit protection domain. Two libco cothreads share the
  processor: \<^verbatim>\<open>t_event\<close> (the thread Microkit calls \<^verbatim>\<open>init\<close> and
  \<^verbatim>\<open>notified\<close> on) and \<^verbatim>\<open>t_mp\<close> (the interpreter, entered at
  \<^verbatim>\<open>t_mp_entrypoint\<close>). They communicate through two global \<^verbatim>\<open>int\<close>
  bitmasks, \<^verbatim>\<open>active_events\<close> and \<^verbatim>\<open>mp_blocking_events\<close>.

  The embedding is a state machine. A \<^verbatim>\<open>co_switch\<close> saves where the calling
  cothread stops and continues the other one from where it stopped, so each cothread's
  saved program point is a field of the state and each C function that contains a
  \<^verbatim>\<open>co_switch\<close> is split at it. Calls into code outside this file (the interpreter
  runtime, the sDDF queues, lwIP, the filesystem client, \<^verbatim>\<open>printf\<close>) are recorded, in
  program order, in a trace of effects.
\<close>

subsection \<open>Types\<close>

type_synonym c_int = "32 word"
type_synonym microkit_channel = "32 word"
type_synonym uintptr_t = "64 word"

text \<open>
  The build: the preprocessor switches tested by the file, and the constants it takes from
  other headers (the channel numbers and the event-source tags of
  \<^verbatim>\<open>micropython.h\<close>, the queue constants of sDDF), as parameters.
  \<^verbatim>\<open>serial_rx_data\<close> and \<^verbatim>\<open>serial_tx_data\<close> are the addresses the Microkit
  loader patches into the globals of the same name.
\<close>

record build =
  EXEC_MODULE :: "string option"
  ENABLE_I2C :: bool
  ENABLE_FRAMEBUFFER :: bool
  NDEBUG :: bool
  SERIAL_RX_CH :: microkit_channel
  TIMER_CH :: microkit_channel
  FRAMEBUFFER_VMM_CH :: microkit_channel
  NFS_CH :: microkit_channel
  I2C_CH :: microkit_channel
  ETH_RX_CH :: microkit_channel
  ETH_TX_CH :: microkit_channel
  mp_event_source_serial :: c_int
  mp_event_source_timer :: c_int
  mp_event_source_framebuffer :: c_int
  mp_event_source_nfs :: c_int
  mp_event_source_i2c :: c_int
  NUM_ENTRIES :: c_int
  BUFFER_SIZE :: c_int
  serial_rx_data :: uintptr_t
  serial_tx_data :: uintptr_t

text \<open>
  Modelled from the spec: \<^verbatim>\<open>mp_event_source_none\<close> is declared in
  \<^verbatim>\<open>micropython.h\<close>, of which only the use in this file is known. The specification
  describes the two globals as bitmasks and the value "none" as the empty one.
\<close>

definition mp_event_source_none :: c_int where
  "mp_event_source_none = 0"

datatype cothread = T_event | T_mp

datatype queue_id = Serial_rx_queue | Serial_tx_queue

text \<open>Calls that leave the file, and the messages it prints.\<close>

datatype effect =
    Printf_initialising
  | Mp_stack_ctrl_init
  | Gc_init
  | Mp_init
  | Init_nfs
  | Init_networking
  | Pyexec_friendly_repl
  | Pyexec_frozen_module string
  | Gc_sweep_all
  | Mp_deinit
  | Printf_exited
  | Serial_queue_init queue_id
  | Serial_enqueue_free queue_id uintptr_t c_int
  | I2c_queue_init
  | Co_active
  | Co_derive
  | Co_switch cothread
  | Process_rx
  | Pyb_lwip_poll
  | Fs_process_completions
  | Printf_unexpected_notification microkit_channel
  | Mpnet_handle_notify

text \<open>
  Where a cothread that is not running stopped. \<^verbatim>\<open>t_event\<close> stops at the
  \<^verbatim>\<open>co_switch(t_mp)\<close> of \<^verbatim>\<open>init\<close> or at the one of \<^verbatim>\<open>notified\<close>;
  \<^verbatim>\<open>t_mp\<close> has not started yet, or stopped at the \<^verbatim>\<open>co_switch(t_event)\<close> of
  \<^verbatim>\<open>await\<close> (whose parameter \<^verbatim>\<open>event_source\<close> lives in the saved frame), or
  at the last line of \<^verbatim>\<open>t_mp_entrypoint\<close>.
\<close>

datatype event_pc = In_init | In_notified

datatype mp_pc = At_entry | In_await c_int | At_end

record state =
  active_events :: c_int
  mp_blocking_events :: c_int
  co_active :: cothread
  t_event_pc :: event_pc
  t_mp_pc :: mp_pc
  trace :: "effect list"

datatype error = Assertion_failure | Entrypoint_returned

definition emit :: "effect list \<Rightarrow> state \<Rightarrow> state" where
  "emit es s = s\<lparr>trace := trace s @ es\<rparr>"

subsection \<open>The interpreter cothread\<close>

text \<open>
  \<^verbatim>\<open>t_mp_entrypoint\<close> from the label \<^verbatim>\<open>start_repl\<close> to the call of the
  interpreter's main loop (\<^verbatim>\<open>pyexec_friendly_repl\<close>, or
  \<^verbatim>\<open>pyexec_frozen_module\<close> when \<^verbatim>\<open>EXEC_MODULE\<close> is defined). The main loop
  itself is interpreter code: what it does to this file is to call \<^verbatim>\<open>await\<close> and,
  at some point, to return.
\<close>

definition start_repl :: "build \<Rightarrow> state \<Rightarrow> state" where
  "start_repl b s =
     emit [Mp_stack_ctrl_init, Gc_init, Mp_init, Init_nfs, Init_networking,
           (case EXEC_MODULE b of
              None \<Rightarrow> Pyexec_friendly_repl
            | Some m \<Rightarrow> Pyexec_frozen_module m)] s"

definition t_mp_entrypoint :: "build \<Rightarrow> state \<Rightarrow> state" where
  "t_mp_entrypoint b s = start_repl b (emit [Printf_initialising] s)"

text \<open>The event cothread continues after its \<^verbatim>\<open>co_switch(t_mp)\<close>: \<^verbatim>\<open>init\<close>
  returns to Microkit, \<^verbatim>\<open>notified\<close> calls \<^verbatim>\<open>mpnet_handle_notify\<close> and returns.\<close>

fun resume_t_event :: "event_pc \<Rightarrow> state \<Rightarrow> state" where
  "resume_t_event In_init s = s"
| "resume_t_event In_notified s = emit [Mpnet_handle_notify] s"

text \<open>\<^verbatim>\<open>co_switch(t_event)\<close>, called by the interpreter cothread at the point \<open>pc\<close>.\<close>

definition co_switch_t_event :: "mp_pc \<Rightarrow> state \<Rightarrow> state" where
  "co_switch_t_event pc s =
     resume_t_event (t_event_pc s)
       (emit [Co_switch T_event] (s\<lparr>co_active := T_event, t_mp_pc := pc\<rparr>))"

text \<open>\<^verbatim>\<open>await\<close>, up to and including its \<^verbatim>\<open>co_switch(t_event)\<close>.\<close>

definition await :: "build \<Rightarrow> c_int \<Rightarrow> state \<Rightarrow> error + state" where
  "await b event_source s =
     (if active_events s AND event_source \<noteq> 0
      then Inr (s\<lparr>active_events := active_events s AND NOT event_source\<rparr>)
      else Inr (co_switch_t_event (In_await event_source)
                  (s\<lparr>mp_blocking_events := event_source\<rparr>)))"

text \<open>
  \<^verbatim>\<open>await\<close> after its \<^verbatim>\<open>co_switch(t_event)\<close> returns. A failed
  \<^verbatim>\<open>assert\<close> prints and spins forever in \<^verbatim>\<open>__assert_func\<close>; with
  \<^verbatim>\<open>NDEBUG\<close> the assertion is compiled out.
\<close>

definition await_resume :: "build \<Rightarrow> c_int \<Rightarrow> state \<Rightarrow> error + state" where
  "await_resume b event_source s =
     (if \<not> NDEBUG b \<and> active_events s AND event_source = 0
      then Inl Assertion_failure
      else Inr (s\<lparr>mp_blocking_events := mp_event_source_none,
                  active_events := active_events s AND NOT event_source\<rparr>))"

text \<open>
  \<^verbatim>\<open>t_mp_entrypoint\<close> after the main loop returns: the runtime is torn down, then
  the REPL build jumps back to \<^verbatim>\<open>start_repl\<close> and the frozen-module build reaches
  the final \<^verbatim>\<open>co_switch(t_event)\<close>.
\<close>

definition main_loop_returns :: "build \<Rightarrow> state \<Rightarrow> error + state" where
  "main_loop_returns b s =
     (let s1 = emit [Gc_sweep_all, Mp_deinit, Printf_exited] s
      in case EXEC_MODULE b of
           None \<Rightarrow> Inr (start_repl b s1)
         | Some m \<Rightarrow> Inr (co_switch_t_event At_end s1))"

text \<open>
  The interpreter cothread continues from where it stopped. Resuming it after the final
  \<^verbatim>\<open>co_switch\<close> would return from the entry function of a cothread, which libco
  leaves undefined.
\<close>

fun resume_t_mp :: "build \<Rightarrow> mp_pc \<Rightarrow> state \<Rightarrow> error + state" where
  "resume_t_mp b At_entry s = Inr (t_mp_entrypoint b s)"
| "resume_t_mp b (In_await event_source) s = await_resume b event_source s"
| "resume_t_mp b At_end s = Inl Entrypoint_returned"

text \<open>\<^verbatim>\<open>co_switch(t_mp)\<close>, called by the event cothread at the point \<open>pc\<close>.\<close>

definition co_switch_t_mp :: "build \<Rightarrow> event_pc \<Rightarrow> state \<Rightarrow> error + state" where
  "co_switch_t_mp b pc s =
     resume_t_mp b (t_mp_pc s)
       (emit [Co_switch T_mp] (s\<lparr>co_active := T_mp, t_event_pc := pc\<rparr>))"

subsection \<open>The event cothread\<close>

text \<open>
  The seeding loop of \<^verbatim>\<open>init\<close>,
  \<^verbatim>\<open>for (int i = 0; i < NUM_ENTRIES - 1; i++) serial_enqueue_free(q, data + ((i + NUM_ENTRIES) * BUFFER_SIZE), BUFFER_SIZE);\<close>
  from the value \<open>i\<close> of the counter. The counter and the two constants are C
  \<^verbatim>\<open>int\<close>s: the bound \<^verbatim>\<open>NUM_ENTRIES - 1\<close> and the offset
  \<^verbatim>\<open>(i + NUM_ENTRIES) * BUFFER_SIZE\<close> are computed in 32 bits, wrapping as the
  compiled code does, the comparison is the signed one, and the offset is sign-extended to
  the 64 bits of \<^verbatim>\<open>uintptr_t\<close> before it is added to the base address. The length
  argument is \<^verbatim>\<open>BUFFER_SIZE\<close> as it stands.
\<close>

function seed_free :: "build \<Rightarrow> queue_id \<Rightarrow> uintptr_t \<Rightarrow> c_int \<Rightarrow> effect list" where
  "seed_free b q data i =
     (if i <s NUM_ENTRIES b - 1
      then Serial_enqueue_free q (data + scast ((i + NUM_ENTRIES b) * BUFFER_SIZE b))
             (BUFFER_SIZE b)
           # seed_free b q data (i + 1)
      else [])"
  by pat_completeness auto
termination
proof (relation "measure (\<lambda>(b, q, data, i). nat (sint (NUM_ENTRIES b - 1) - sint i))")
  show "wf (measure (\<lambda>(b, q, data, i). nat (sint (NUM_ENTRIES b - 1) - sint i)))"
    by simp
next
  fix b :: build and q :: queue_id and data :: uintptr_t and i :: c_int
  assume less: "i <s NUM_ENTRIES b - 1"
  then have l: "sint i < sint (NUM_ENTRIES b - 1)" by (simp add: word_sless_alt)
  moreover have "sint (NUM_ENTRIES b - 1) < 2 ^ 31"
    using sint_lt [of "NUM_ENTRIES b - 1"] by simp
  moreover have "- (2 ^ 31) \<le> sint i" using sint_ge [of i] by simp
  ultimately have "- (2 ^ 31) \<le> sint i + 1" "sint i + 1 < 2 ^ 31" by simp_all
  then have "signed_take_bit 31 (sint i + 1) = sint i + 1"
    by (simp add: signed_take_bit_int_eq_self)
  then have "sint (i + 1) = sint i + 1" by (simp add: sint_word_ariths)
  with l show "((b, q, data, i + 1), (b, q, data, i))
      \<in> measure (\<lambda>(b, q, data, i). nat (sint (NUM_ENTRIES b - 1) - sint i))"
    by simp
qed

declare seed_free.simps [simp del]

definition init :: "build \<Rightarrow> state \<Rightarrow> error + state" where
  "init b s =
     (let s1 = emit (Serial_queue_init Serial_rx_queue
                     # seed_free b Serial_rx_queue (serial_rx_data b) 0) s;
          s2 = emit (Serial_queue_init Serial_tx_queue
                     # seed_free b Serial_tx_queue (serial_tx_data b) 0) s1;
          s3 = (if ENABLE_I2C b then emit [I2c_queue_init] s2 else s2);
          s4 = emit [Co_active, Co_derive] (s3\<lparr>t_mp_pc := At_entry\<rparr>)
      in co_switch_t_mp b In_init s4)"

text \<open>The \<^verbatim>\<open>switch (ch)\<close> of \<^verbatim>\<open>notified\<close>, its cases in the order of the file.\<close>

definition notified_switch :: "build \<Rightarrow> microkit_channel \<Rightarrow> state \<Rightarrow> state" where
  "notified_switch b ch s =
     (if ch = SERIAL_RX_CH b
        then s\<lparr>active_events := active_events s OR mp_event_source_serial b\<rparr>
      else if ch = TIMER_CH b
        then s\<lparr>active_events := active_events s OR mp_event_source_timer b\<rparr>
      else if ENABLE_FRAMEBUFFER b \<and> ch = FRAMEBUFFER_VMM_CH b
        then s\<lparr>active_events := active_events s OR mp_event_source_framebuffer b\<rparr>
      else if ch = NFS_CH b
        then s\<lparr>active_events := active_events s OR mp_event_source_nfs b\<rparr>
      else if ENABLE_I2C b \<and> ch = I2C_CH b
        then s\<lparr>active_events := active_events s OR mp_event_source_i2c b\<rparr>
      else if ch = ETH_RX_CH b \<or> ch = ETH_TX_CH b
        then s
      else emit [Printf_unexpected_notification ch] s)"

text \<open>The labels of that \<^verbatim>\<open>switch\<close> in the build \<open>b\<close>. C rejects a
  \<^verbatim>\<open>switch\<close> with two equal labels, so in a build that compiles they are distinct.\<close>

definition case_labels :: "build \<Rightarrow> microkit_channel list" where
  "case_labels b =
     [SERIAL_RX_CH b, TIMER_CH b]
     @ (if ENABLE_FRAMEBUFFER b then [FRAMEBUFFER_VMM_CH b] else [])
     @ [NFS_CH b]
     @ (if ENABLE_I2C b then [I2C_CH b] else [])
     @ [ETH_RX_CH b, ETH_TX_CH b]"

text \<open>\<^verbatim>\<open>notified\<close>, up to its \<^verbatim>\<open>co_switch(t_mp)\<close> when it takes it and to its
  end when it does not.\<close>

definition notified :: "build \<Rightarrow> microkit_channel \<Rightarrow> state \<Rightarrow> error + state" where
  "notified b ch s =
     (let s1 = emit [Process_rx, Pyb_lwip_poll, Fs_process_completions] s;
          s2 = notified_switch b ch s1
      in if active_events s2 AND mp_blocking_events s2 \<noteq> 0
         then co_switch_t_mp b In_notified s2
         else Inr (emit [Mpnet_handle_notify] s2))"

subsection \<open>Runs of the component\<close>

text \<open>
  What happens to the component from outside this file: Microkit calls \<^verbatim>\<open>notified\<close>
  when the event cothread has returned to it, and interpreter code, while the interpreter
  cothread runs, calls \<^verbatim>\<open>await\<close> or returns from the main loop.
\<close>

datatype call = Notified microkit_channel | Await c_int | Main_loop_returns

fun callable :: "state \<Rightarrow> call \<Rightarrow> bool" where
  "callable s (Notified ch) = (co_active s = T_event)"
| "callable s (Await event_source) = (co_active s = T_mp)"
| "callable s Main_loop_returns = (co_active s = T_mp)"

fun step :: "build \<Rightarrow> state \<Rightarrow> call \<Rightarrow> error + state" where
  "step b s (Notified ch) = notified b ch s"
| "step b s (Await event_source) = await b event_source s"
| "step b s Main_loop_returns = main_loop_returns b s"

text \<open>A run is \<open>None\<close> when the list asks for a call that cannot be made in the state
  reached, and stops at the first error.\<close>

fun run :: "build \<Rightarrow> state \<Rightarrow> call list \<Rightarrow> (error + state) option" where
  "run b s [] = Some (Inr s)"
| "run b s (c # cs) =
     (if callable s c
      then (case step b s c of Inl e \<Rightarrow> Some (Inl e) | Inr s' \<Rightarrow> run b s' cs)
      else None)"

text \<open>The globals as the file initialises them, before \<^verbatim>\<open>init\<close>.\<close>

definition initial_state :: state where
  "initial_state =
     \<lparr>active_events = mp_event_source_none, mp_blocking_events = mp_event_source_none,
      co_active = T_event, t_event_pc = In_init, t_mp_pc = At_entry, trace = []\<rparr>"

definition boot :: "build \<Rightarrow> call list \<Rightarrow> (error + state) option" where
  "boot b cs = (case init b initial_state of Inl e \<Rightarrow> Some (Inl e) | Inr s \<Rightarrow> run b s cs)"

text \<open>A small build to run the component on: the REPL build and the frozen-module build
  of the same system.\<close>

definition repl_build :: build where
  "repl_build =
     \<lparr>EXEC_MODULE = None, ENABLE_I2C = False, ENABLE_FRAMEBUFFER = False, NDEBUG = False,
      SERIAL_RX_CH = 0, TIMER_CH = 1, FRAMEBUFFER_VMM_CH = 2, NFS_CH = 3, I2C_CH = 4,
      ETH_RX_CH = 5, ETH_TX_CH = 6,
      mp_event_source_serial = 1, mp_event_source_timer = 2,
      mp_event_source_framebuffer = 4, mp_event_source_nfs = 8, mp_event_source_i2c = 16,
      NUM_ENTRIES = 4, BUFFER_SIZE = 2048,
      serial_rx_data = 0x3000000, serial_tx_data = 0x3200000\<rparr>"

definition frozen_build :: build where
  "frozen_build = repl_build\<lparr>EXEC_MODULE := Some ''main.py''\<rparr>"

text \<open>
  The invariant of the event state, at the points where a call can be made. While the
  interpreter cothread runs interpreter code, nothing is awaited. While the event cothread
  is back in Microkit, the interpreter cothread is stopped inside \<^verbatim>\<open>await\<close> with
  \<^verbatim>\<open>mp_blocking_events\<close> equal to the awaited source and that source not pending,
  or it is stopped at the end of its entry function in a frozen-module build.
\<close>

definition event_state_inv :: "build \<Rightarrow> state \<Rightarrow> bool" where
  "event_state_inv b s =
     (case co_active s of
        T_mp \<Rightarrow> mp_blocking_events s = 0
      | T_event \<Rightarrow>
          (case t_mp_pc s of
             At_entry \<Rightarrow> False
           | In_await event_source \<Rightarrow>
               mp_blocking_events s = event_source \<and> active_events s AND event_source = 0
           | At_end \<Rightarrow> mp_blocking_events s = 0 \<and> EXEC_MODULE b \<noteq> None))"

text \<open>The interpreter cothread is stopped in \<^verbatim>\<open>await\<close> for \<open>src\<close>, the event
  cothread is back in Microkit, and no bit of \<open>src\<close> is pending.\<close>

definition waiting :: "c_int \<Rightarrow> state \<Rightarrow> bool" where
  "waiting src s \<longleftrightarrow> co_active s = T_event \<and> t_mp_pc s = In_await src
     \<and> mp_blocking_events s = src \<and> active_events s AND src = 0"

text \<open>The effects that only \<^verbatim>\<open>init\<close> and the first entry into
  \<^verbatim>\<open>t_mp_entrypoint\<close> produce.\<close>

fun init_only :: "effect \<Rightarrow> bool" where
  "init_only (Serial_queue_init q) = True"
| "init_only (Serial_enqueue_free q a n) = True"
| "init_only I2c_queue_init = True"
| "init_only Co_active = True"
| "init_only Co_derive = True"
| "init_only Printf_initialising = True"
| "init_only (Pyexec_frozen_module m) = True"
| "init_only e = False"


section \<open>Basic facts\<close>

lemmas mp_defs = await_def await_resume_def co_switch_t_event_def co_switch_t_mp_def
  emit_def start_repl_def t_mp_entrypoint_def main_loop_returns_def notified_def
  mp_event_source_none_def

lemma emit_fields [simp]:
  "active_events (emit es s) = active_events s"
  "mp_blocking_events (emit es s) = mp_blocking_events s"
  "co_active (emit es s) = co_active s"
  "t_event_pc (emit es s) = t_event_pc s"
  "t_mp_pc (emit es s) = t_mp_pc s"
  "trace (emit es s) = trace s @ es"
  by (simp_all add: emit_def)

lemma switch_fields [simp]:
  "mp_blocking_events (notified_switch b ch s) = mp_blocking_events s"
  "co_active (notified_switch b ch s) = co_active s"
  "t_event_pc (notified_switch b ch s) = t_event_pc s"
  "t_mp_pc (notified_switch b ch s) = t_mp_pc s"
  by (simp_all add: notified_switch_def emit_def)

lemma and_zero_bit: "(a::c_int) AND m = 0 \<Longrightarrow> bit a n \<Longrightarrow> \<not> bit m n"
proof
  assume z: "a AND m = 0" and a: "bit a n" and m: "bit m n"
  have "bit (a AND m) n = (bit a n \<and> bit m n)" by (rule bit_and_iff)
  with z a m show False by simp
qed

subsection \<open>The invariant holds after \<^verbatim>\<open>init\<close> and is kept by every call\<close>

lemma init_ok: "\<exists>s. init b initial_state = Inr s"
  by (simp add: init_def initial_state_def mp_defs Let_def)

lemma init_inv: "init b initial_state = Inr s \<Longrightarrow> event_state_inv b s"
  by (auto simp: init_def initial_state_def event_state_inv_def mp_defs Let_def
           split: if_splits)

lemma notified_inv:
  assumes "event_state_inv b s" "co_active s = T_event"
  shows "\<exists>s'. notified b ch s = Inr s' \<and> event_state_inv b s'"
  using assms
  by (cases "t_mp_pc s") (auto simp: event_state_inv_def mp_defs Let_def)

lemma await_inv:
  assumes "event_state_inv b s" "co_active s = T_mp"
  shows "\<exists>s'. await b src s = Inr s' \<and> event_state_inv b s'"
  using assms
  by (cases "t_event_pc s") (auto simp: event_state_inv_def mp_defs Let_def)

lemma main_loop_returns_inv:
  assumes "event_state_inv b s" "co_active s = T_mp"
  shows "\<exists>s'. main_loop_returns b s = Inr s' \<and> event_state_inv b s'"
  using assms
  by (cases "t_event_pc s"; cases "EXEC_MODULE b")
     (auto simp: event_state_inv_def mp_defs Let_def)

lemma step_inv:
  assumes "event_state_inv b s" "callable s c"
  shows "\<exists>s'. step b s c = Inr s' \<and> event_state_inv b s'"
  using assms notified_inv await_inv main_loop_returns_inv
  by (cases c) auto

lemma run_inv:
  "event_state_inv b s \<Longrightarrow> run b s cs = Some r \<Longrightarrow> \<exists>s'. r = Inr s' \<and> event_state_inv b s'"
proof (induction cs arbitrary: s)
  case Nil
  then show ?case by auto
next
  case (Cons c cs)
  from Cons.prems(2) have en: "callable s c"
    by (simp split: if_splits)
  with Cons.prems(1) obtain s1 where s1: "step b s c = Inr s1" "event_state_inv b s1"
    using step_inv by blast
  with Cons.prems(2) en have "run b s1 cs = Some r" by simp
  with Cons.IH s1(2) show ?case by blast
qed

lemma boot_inv: "boot b cs = Some r \<Longrightarrow> \<exists>s. r = Inr s \<and> event_state_inv b s"
proof -
  assume r: "boot b cs = Some r"
  obtain s0 where s0: "init b initial_state = Inr s0" using init_ok by blast
  with r have "run b s0 cs = Some r" by (simp add: boot_def)
  with run_inv init_inv [OF s0] show ?thesis by blast
qed

subsection \<open>A pending bit survives every call that does not await it\<close>

lemma switch_keeps_bit:
  "bit (active_events s) n \<Longrightarrow> bit (active_events (notified_switch b ch s)) n"
  by (simp add: notified_switch_def emit_def bit_or_iff)

lemma notified_keeps_bit:
  assumes "event_state_inv b s" "co_active s = T_event" "bit (active_events s) n"
    and "notified b ch s = Inr s'"
  shows "bit (active_events s') n"
proof (cases "t_mp_pc s")
  case At_entry
  with assms(1,2) show ?thesis by (simp add: event_state_inv_def)
next
  case (In_await src)
  with assms(1,2) have z: "active_events s AND src = 0" and bl: "mp_blocking_events s = src"
    by (simp_all add: event_state_inv_def)
  from z assms(3) have nb: "\<not> bit src n" by (rule and_zero_bit)
  let ?s2 = "notified_switch b ch (emit [Process_rx, Pyb_lwip_poll, Fs_process_completions] s)"
  have b2: "bit (active_events ?s2) n"
    using assms(3) by (intro switch_keeps_bit) (simp add: emit_def)
  from assms(3) have n32: "n < 32" by (auto dest: bit_imp_le_length)
  from assms(4) In_await b2 nb n32 show ?thesis
    by (auto simp: notified_def Let_def co_switch_t_mp_def await_resume_def
        bit_and_iff bit_not_iff split: if_splits)
next
  case At_end
  with assms(1,2) have bl: "mp_blocking_events s = 0" by (simp add: event_state_inv_def)
  let ?s2 = "notified_switch b ch (emit [Process_rx, Pyb_lwip_poll, Fs_process_completions] s)"
  have b2: "bit (active_events ?s2) n"
    using assms(3) by (intro switch_keeps_bit) (simp add: emit_def)
  from assms(4) bl b2 show ?thesis
    by (auto simp: notified_def Let_def emit_def split: if_splits)
qed

lemma await_keeps_bit:
  assumes "bit (active_events s) n" "\<not> bit src n" "await b src s = Inr s'"
  shows "bit (active_events s') n"
proof -
  from assms(1) have n32: "n < 32" by (auto dest: bit_imp_le_length)
  with assms show ?thesis
    by (cases "t_event_pc s")
       (auto simp: await_def co_switch_t_event_def bit_and_iff bit_not_iff
             split: if_splits)
qed

lemma main_loop_returns_active_events:
  "main_loop_returns b s = Inr s' \<Longrightarrow> active_events s' = active_events s"
  by (cases "t_event_pc s"; cases "EXEC_MODULE b")
     (auto simp: main_loop_returns_def co_switch_t_event_def start_repl_def Let_def)

lemma step_keeps_bit:
  assumes "event_state_inv b s" "callable s c" "bit (active_events s) n"
    and "\<forall>src. c = Await src \<longrightarrow> \<not> bit src n"
    and "step b s c = Inr s'"
  shows "bit (active_events s') n"
proof (cases c)
  case (Notified ch)
  with assms show ?thesis by (auto intro: notified_keeps_bit)
next
  case (Await src)
  with assms show ?thesis by (auto intro: await_keeps_bit)
next
  case Main_loop_returns
  with assms show ?thesis by (auto dest: main_loop_returns_active_events)
qed

lemma run_keeps_bit:
  assumes "event_state_inv b s" "bit (active_events s) n"
    and "\<forall>src. Await src \<in> set cs \<longrightarrow> \<not> bit src n"
    and "run b s cs = Some (Inr s')"
  shows "bit (active_events s') n"
  using assms
proof (induction cs arbitrary: s)
  case Nil
  then show ?case by simp
next
  case (Cons c cs)
  from Cons.prems(4) have en: "callable s c" by (simp split: if_splits)
  with Cons.prems(1) obtain s1 where s1: "step b s c = Inr s1" "event_state_inv b s1"
    using step_inv by blast
  from Cons.prems(3) have na: "\<forall>src. c = Await src \<longrightarrow> \<not> bit src n" by simp
  have b1: "bit (active_events s1) n"
    using Cons.prems(1) en Cons.prems(2) na s1(1) by (rule step_keeps_bit)
  from Cons.prems(4) en s1(1) have r: "run b s1 cs = Some (Inr s')" by simp
  from Cons.prems(3) have na': "\<forall>src. Await src \<in> set cs \<longrightarrow> \<not> bit src n" by simp
  from Cons.IH [OF s1(2) b1 na' r] show ?case .
qed

subsection \<open>A clear bit stays clear until a notification sets it\<close>

lemma notified_keeps_clear:
  assumes "event_state_inv b s" "co_active s = T_event" "\<not> bit (active_events s) n"
    and "\<forall>s0. bit (active_events (notified_switch b ch s0)) n \<longrightarrow> bit (active_events s0) n"
    and "notified b ch s = Inr s'"
  shows "\<not> bit (active_events s') n"
proof -
  let ?s2 = "notified_switch b ch (emit [Process_rx, Pyb_lwip_poll, Fs_process_completions] s)"
  from assms(3,4) have c2: "\<not> bit (active_events ?s2) n"
    by (auto simp del: switch_fields)
  show ?thesis
  proof (cases "t_mp_pc s")
    case At_entry
    with assms(1,2) show ?thesis by (simp add: event_state_inv_def)
  next
    case (In_await src)
    with assms(5) c2 show ?thesis
      by (auto simp: notified_def Let_def co_switch_t_mp_def await_resume_def bit_and_iff
          split: if_splits)
  next
    case At_end
    with assms(1,2) have "mp_blocking_events s = 0" by (simp add: event_state_inv_def)
    with assms(5) c2 show ?thesis by (auto simp: notified_def Let_def split: if_splits)
  qed
qed

lemma await_keeps_clear:
  assumes "\<not> bit (active_events s) n" "await b src s = Inr s'"
  shows "\<not> bit (active_events s') n"
  using assms
  by (cases "t_event_pc s")
     (auto simp: await_def co_switch_t_event_def bit_and_iff split: if_splits)

lemma step_keeps_clear:
  assumes "event_state_inv b s" "callable s c" "\<not> bit (active_events s) n"
    and "\<forall>ch. c = Notified ch \<longrightarrow>
           (\<forall>s0. bit (active_events (notified_switch b ch s0)) n \<longrightarrow> bit (active_events s0) n)"
    and "step b s c = Inr s'"
  shows "\<not> bit (active_events s') n"
proof (cases c)
  case (Notified ch)
  with assms(4) have "\<forall>s0. bit (active_events (notified_switch b ch s0)) n
      \<longrightarrow> bit (active_events s0) n" by simp
  from notified_keeps_clear [OF assms(1) _ assms(3) this] assms(2,5) Notified
  show ?thesis by simp
next
  case (Await src)
  with assms show ?thesis by (auto dest: await_keeps_clear)
next
  case Main_loop_returns
  with assms show ?thesis by (auto dest: main_loop_returns_active_events)
qed

lemma run_keeps_clear:
  assumes "event_state_inv b s" "\<not> bit (active_events s) n"
    and "\<forall>ch. Notified ch \<in> set cs \<longrightarrow>
           (\<forall>s0. bit (active_events (notified_switch b ch s0)) n \<longrightarrow> bit (active_events s0) n)"
    and "run b s cs = Some (Inr s')"
  shows "\<not> bit (active_events s') n"
  using assms
proof (induction cs arbitrary: s)
  case Nil
  then show ?case by simp
next
  case (Cons c cs)
  from Cons.prems(4) have en: "callable s c" by (simp split: if_splits)
  with Cons.prems(1) obtain s1 where s1: "step b s c = Inr s1" "event_state_inv b s1"
    using step_inv by blast
  from Cons.prems(3) have na: "\<forall>ch. c = Notified ch \<longrightarrow>
      (\<forall>s0. bit (active_events (notified_switch b ch s0)) n \<longrightarrow> bit (active_events s0) n)"
    by simp
  have b1: "\<not> bit (active_events s1) n"
    using Cons.prems(1) en Cons.prems(2) na s1(1) by (rule step_keeps_clear)
  from Cons.prems(4) en s1(1) have r: "run b s1 cs = Some (Inr s')" by simp
  from Cons.prems(3) have na': "\<forall>ch. Notified ch \<in> set cs \<longrightarrow>
      (\<forall>s0. bit (active_events (notified_switch b ch s0)) n \<longrightarrow> bit (active_events s0) n)"
    by simp
  from Cons.IH [OF s1(2) b1 na' r] show ?case .
qed

subsection \<open>Which value \<^verbatim>\<open>mp_blocking_events\<close> can hold\<close>

lemma step_blocking:
  assumes "step b s c = Inr s'"
  shows "mp_blocking_events s' = mp_blocking_events s \<or> mp_blocking_events s' = 0
         \<or> c = Await (mp_blocking_events s')"
proof (cases c)
  case (Notified ch)
  with assms show ?thesis
    by (cases "t_mp_pc s")
       (auto simp: notified_def co_switch_t_mp_def t_mp_entrypoint_def start_repl_def
          await_resume_def mp_event_source_none_def Let_def split: if_splits)
next
  case (Await src)
  with assms show ?thesis
    by (cases "t_event_pc s") (auto simp: await_def co_switch_t_event_def split: if_splits)
next
  case Main_loop_returns
  with assms show ?thesis
    by (cases "t_event_pc s"; cases "EXEC_MODULE b")
       (auto simp: main_loop_returns_def co_switch_t_event_def start_repl_def Let_def)
qed

lemma run_blocking:
  assumes "run b s cs = Some (Inr s')"
  shows "mp_blocking_events s' = mp_blocking_events s \<or> mp_blocking_events s' = 0
         \<or> Await (mp_blocking_events s') \<in> set cs"
  using assms
proof (induction cs arbitrary: s)
  case Nil
  then show ?case by simp
next
  case (Cons c cs)
  from Cons.prems have en: "callable s c" by (simp split: if_splits)
  with Cons.prems obtain s1 where s1: "step b s c = Inr s1" "run b s1 cs = Some (Inr s')"
    by (cases "step b s c") auto
  from Cons.IH [OF s1(2)] step_blocking [OF s1(1)] show ?case by auto
qed

subsection \<open>An interpreter stopped in \<^verbatim>\<open>await\<close>, and the notifications it sees\<close>

lemma or_and_not_disjoint: "(a::c_int) AND m = 0 \<Longrightarrow> (a OR m) AND NOT m = a"
proof (rule bit_eqI)
  fix n
  assume z: "a AND m = 0"
  have "bit a n \<longrightarrow> \<not> bit m n" using and_zero_bit [OF z] by blast
  then show "bit ((a OR m) AND NOT m) n = bit a n"
    by (auto simp: bit_and_iff bit_or_iff bit_not_iff dest: bit_imp_le_length)
qed

lemma switch_sets_no_log:
  assumes "\<forall>s0. active_events (notified_switch b ch s0) = active_events s0 OR m" "m \<noteq> 0"
  shows "trace (notified_switch b ch s) = trace s"
proof -
  let ?z = "s\<lparr>active_events := 0\<rparr>"
  from assms(1) have "active_events (notified_switch b ch ?z) = m" by simp
  with assms(2) have "notified_switch b ch ?z \<noteq> emit [Printf_unexpected_notification ch] ?z"
    by auto
  then show ?thesis by (auto simp: notified_switch_def split: if_splits)
qed

lemma notified_other_keeps_waiting:
  assumes "waiting src s"
    and "\<forall>s0. active_events (notified_switch b c s0) AND src = active_events s0 AND src"
  shows "\<exists>s'. notified b c s = Inr s' \<and> waiting src s'"
  using assms by (simp add: waiting_def notified_def Let_def)

lemma run_others_keeps_waiting:
  assumes "waiting src s"
    and "\<forall>c\<in>set chs. \<forall>s0. active_events (notified_switch b c s0) AND src
                               = active_events s0 AND src"
  shows "\<exists>s'. run b s (map Notified chs) = Some (Inr s') \<and> waiting src s'"
  using assms
proof (induction chs arbitrary: s)
  case Nil
  then show ?case by simp
next
  case (Cons c chs)
  from Cons.prems obtain s1 where s1: "notified b c s = Inr s1" "waiting src s1"
    using notified_other_keeps_waiting [of src s b c] by auto
  from Cons.IH [OF s1(2)] Cons.prems(2) obtain s' where
    "run b s1 (map Notified chs) = Some (Inr s')" "waiting src s'" by auto
  with s1(1) Cons.prems(1) show ?case by (simp add: waiting_def)
qed

lemma await_slow:
  assumes "active_events s AND src = 0"
  shows "\<exists>s1. await b src s = Inr s1 \<and> waiting src s1 \<and> active_events s1 = active_events s
     \<and> trace s1 = trace s @ Co_switch T_event
                    # (if t_event_pc s = In_notified then [Mpnet_handle_notify] else [])"
  using assms by (cases "t_event_pc s") (simp_all add: await_def co_switch_t_event_def waiting_def)

lemma notified_match_resumes:
  assumes "waiting src s" "src \<noteq> 0"
    and "\<forall>s0. active_events (notified_switch b ch s0) = active_events s0 OR src"
  shows "\<exists>s'. notified b ch s = Inr s' \<and> co_active s' = T_mp
     \<and> mp_blocking_events s' = mp_event_source_none \<and> active_events s' = active_events s
     \<and> trace s' = trace s @ [Process_rx, Pyb_lwip_poll, Fs_process_completions, Co_switch T_mp]"
proof -
  let ?s1 = "emit [Process_rx, Pyb_lwip_poll, Fs_process_completions] s"
  let ?s2 = "notified_switch b ch ?s1"
  from assms(3) have a2: "active_events ?s2 = active_events s OR src" by simp
  have hit: "active_events ?s2 AND src \<noteq> 0"
  proof
    assume "active_events ?s2 AND src = 0"
    with a2 have "(active_events s OR src) AND src = 0" by simp
    moreover have "(active_events s OR src) AND src = src"
      by (rule bit_eqI) (auto simp: bit_and_iff bit_or_iff)
    ultimately show False using assms(2) by simp
  qed
  from assms(1) have z: "active_events s AND src = 0" by (simp add: waiting_def)
  have cl: "active_events ?s2 AND NOT src = active_events s"
    using a2 or_and_not_disjoint [OF z] by simp
  have tr: "trace ?s2 = trace s @ [Process_rx, Pyb_lwip_poll, Fs_process_completions]"
    using switch_sets_no_log [OF assms(3,2), of ?s1] by simp
  from assms(1) hit cl tr show ?thesis
    by (simp add: waiting_def notified_def Let_def co_switch_t_mp_def await_resume_def)
qed

subsection \<open>One call of \<^verbatim>\<open>notified\<close> from Microkit\<close>

lemma emit_emit: "emit es' (emit es s) = emit (es @ es') s"
  by (simp add: emit_def)

lemma idle_no_hit:
  assumes "event_state_inv b s" "co_active s = T_event"
  shows "active_events s AND mp_blocking_events s = 0"
  using assms by (cases "t_mp_pc s") (auto simp: event_state_inv_def)

lemma switch_unknown:
  "ch \<notin> set (case_labels b) \<Longrightarrow> notified_switch b ch s = emit [Printf_unexpected_notification ch] s"
  by (auto simp: notified_switch_def case_labels_def split: if_splits)

lemma switch_known:
  "ch \<in> set (case_labels b) \<Longrightarrow> trace (notified_switch b ch s) = trace s"
  by (auto simp: notified_switch_def case_labels_def split: if_splits)

lemma switch_ethernet:
  assumes "distinct (case_labels b)" "ch = ETH_RX_CH b \<or> ch = ETH_TX_CH b"
  shows "notified_switch b ch s = s"
proof -
  from assms have "ch \<noteq> SERIAL_RX_CH b" "ch \<noteq> TIMER_CH b" "ch \<noteq> NFS_CH b"
    "ENABLE_FRAMEBUFFER b \<longrightarrow> ch \<noteq> FRAMEBUFFER_VMM_CH b" "ENABLE_I2C b \<longrightarrow> ch \<noteq> I2C_CH b"
    by (auto simp: case_labels_def split: if_splits)
  with assms(2) show ?thesis by (auto simp: notified_switch_def)
qed

lemma switch_active_events_emit:
  "active_events (notified_switch b ch (emit es s)) = active_events (notified_switch b ch s)"
  by (auto simp: notified_switch_def)

lemma switch_logged:
  "trace (notified_switch b ch s) =
     trace s @ (if ch \<in> set (case_labels b) then [] else [Printf_unexpected_notification ch])"
  by (simp add: switch_unknown switch_known)

lemma notified_idle:
  assumes "event_state_inv b s" "co_active s = T_event"
  shows "\<exists>s'. notified b ch s = Inr s'
     \<and> trace s' = trace s @ [Process_rx, Pyb_lwip_poll, Fs_process_completions]
          @ (if ch \<in> set (case_labels b) then [] else [Printf_unexpected_notification ch])
          @ [if active_events (notified_switch b ch s) AND mp_blocking_events s \<noteq> 0
             then Co_switch T_mp else Mpnet_handle_notify]
     \<and> co_active s' = (if active_events (notified_switch b ch s) AND mp_blocking_events s \<noteq> 0
                       then T_mp else T_event)
     \<and> (active_events (notified_switch b ch s) AND mp_blocking_events s \<noteq> 0
          \<longrightarrow> t_event_pc s' = In_notified)"
proof (cases "t_mp_pc s")
  case At_entry
  with assms show ?thesis by (simp add: event_state_inv_def)
next
  case (In_await src)
  with assms have "mp_blocking_events s = src" by (simp add: event_state_inv_def)
  with In_await assms(2) show ?thesis
    by (simp add: notified_def Let_def switch_active_events_emit switch_logged
        co_switch_t_mp_def await_resume_def)
next
  case At_end
  with assms have "mp_blocking_events s = 0" by (simp add: event_state_inv_def)
  with assms(2) show ?thesis
    by (simp add: notified_def Let_def switch_logged)
qed

subsection \<open>The interpreter runs until it gives the processor back\<close>

lemma interpreter_step_trace:
  assumes "co_active s = T_mp" "t_event_pc s = In_notified" "\<forall>ch. c \<noteq> Notified ch"
    and "step b s c = Inr s1"
  shows "\<exists>l. Mpnet_handle_notify \<notin> set l \<and> Co_switch T_event \<notin> set l \<and>
     (co_active s1 = T_mp \<and> t_event_pc s1 = In_notified \<and> trace s1 = trace s @ l
      \<or> co_active s1 = T_event
        \<and> trace s1 = trace s @ l @ [Co_switch T_event, Mpnet_handle_notify])"
proof (cases c)
  case (Notified ch)
  with assms(3) show ?thesis by simp
next
  case (Await src)
  show ?thesis
  proof (cases "active_events s AND src \<noteq> 0")
    case True
    with Await assms have "co_active s1 = T_mp \<and> t_event_pc s1 = In_notified
        \<and> trace s1 = trace s @ []"
      by (auto simp: await_def)
    then show ?thesis by (intro exI [of _ "[]"]) simp
  next
    case False
    with Await assms have "co_active s1 = T_event
        \<and> trace s1 = trace s @ [] @ [Co_switch T_event, Mpnet_handle_notify]"
      by (auto simp: await_def co_switch_t_event_def)
    then show ?thesis by (intro exI [of _ "[]"]) simp
  qed
next
  case Main_loop_returns
  show ?thesis
  proof (cases "EXEC_MODULE b")
    case None
    let ?l = "[Gc_sweep_all, Mp_deinit, Printf_exited, Mp_stack_ctrl_init, Gc_init, Mp_init,
               Init_nfs, Init_networking, Pyexec_friendly_repl]"
    from None Main_loop_returns assms have "co_active s1 = T_mp \<and> t_event_pc s1 = In_notified
        \<and> trace s1 = trace s @ ?l"
      by (auto simp: main_loop_returns_def start_repl_def Let_def)
    then show ?thesis by (intro exI [of _ ?l]) simp
  next
    case (Some m)
    let ?l = "[Gc_sweep_all, Mp_deinit, Printf_exited]"
    from Some Main_loop_returns assms have "co_active s1 = T_event
        \<and> trace s1 = trace s @ ?l @ [Co_switch T_event, Mpnet_handle_notify]"
      by (auto simp: main_loop_returns_def co_switch_t_event_def Let_def)
    then show ?thesis by (intro exI [of _ ?l]) simp
  qed
qed

lemma interpreter_run_until_yield:
  assumes "co_active s = T_mp" "t_event_pc s = In_notified"
    and "run b s cs = Some (Inr s')" "\<forall>ch. Notified ch \<notin> set cs"
  shows "\<exists>mid. Mpnet_handle_notify \<notin> set mid \<and> Co_switch T_event \<notin> set mid \<and>
     (co_active s' = T_mp \<and> t_event_pc s' = In_notified \<and> trace s' = trace s @ mid
      \<or> co_active s' = T_event
        \<and> trace s' = trace s @ mid @ [Co_switch T_event, Mpnet_handle_notify])"
  using assms
proof (induction cs arbitrary: s)
  case Nil
  then have "co_active s' = T_mp \<and> t_event_pc s' = In_notified \<and> trace s' = trace s @ []"
    by simp
  then show ?case by (intro exI [of _ "[]"]) simp
next
  case (Cons c cs)
  from Cons.prems(3) have en: "callable s c" by (simp split: if_splits)
  with Cons.prems(3) obtain s1 where s1: "step b s c = Inr s1" "run b s1 cs = Some (Inr s')"
    by (cases "step b s c") auto
  from Cons.prems(4) have nn: "\<forall>ch. c \<noteq> Notified ch" by auto
  from interpreter_step_trace [OF Cons.prems(1,2) nn s1(1)] obtain l where
    l: "Mpnet_handle_notify \<notin> set l" "Co_switch T_event \<notin> set l"
    and d: "co_active s1 = T_mp \<and> t_event_pc s1 = In_notified \<and> trace s1 = trace s @ l
      \<or> co_active s1 = T_event
        \<and> trace s1 = trace s @ l @ [Co_switch T_event, Mpnet_handle_notify]"
    by blast
  from d show ?case
  proof
    assume a: "co_active s1 = T_mp \<and> t_event_pc s1 = In_notified \<and> trace s1 = trace s @ l"
    from Cons.prems(4) have "\<forall>ch. Notified ch \<notin> set cs" by auto
    from Cons.IH [OF _ _ s1(2) this] a obtain mid where
      m: "Mpnet_handle_notify \<notin> set mid" "Co_switch T_event \<notin> set mid"
      "co_active s' = T_mp \<and> t_event_pc s' = In_notified \<and> trace s' = trace s1 @ mid
       \<or> co_active s' = T_event
         \<and> trace s' = trace s1 @ mid @ [Co_switch T_event, Mpnet_handle_notify]"
      by blast
    with a l show ?thesis by (intro exI [of _ "l @ mid"]) auto
  next
    assume a: "co_active s1 = T_event
        \<and> trace s1 = trace s @ l @ [Co_switch T_event, Mpnet_handle_notify]"
    have "cs = []"
    proof (cases cs)
      case Nil
      then show ?thesis .
    next
      case (Cons c' cs')
      with Cons.prems(4) have "\<forall>ch. c' \<noteq> Notified ch" by auto
      with a have "\<not> callable s1 c'" by (cases c') auto
      with s1(2) Cons show ?thesis by simp
    qed
    with s1(2) have "s' = s1" by simp
    with a l show ?thesis by (intro exI [of _ l]) simp
  qed
qed

subsection \<open>The trace of \<^verbatim>\<open>init\<close> and what later calls add to it\<close>

lemma sint_succ_below:
  fixes i n :: c_int
  assumes "i <s n"
  shows "sint (i + 1) = sint i + 1"
proof -
  from assms have "sint i < sint n" by (simp add: word_sless_alt)
  moreover have "sint n < 2 ^ 31" using sint_lt [of n] by simp
  moreover have "- (2 ^ 31) \<le> sint i" using sint_ge [of i] by simp
  ultimately have "- (2 ^ 31) \<le> sint i + 1" "sint i + 1 < 2 ^ 31" by simp_all
  then have "signed_take_bit 31 (sint i + 1) = sint i + 1"
    by (simp add: signed_take_bit_int_eq_self)
  then show ?thesis by (simp add: sint_word_ariths)
qed

lemma sint_pred_positive:
  fixes n :: c_int
  assumes "0 <s n"
  shows "sint (n - 1) = sint n - 1"
proof -
  from assms have "0 < sint n" by (simp add: word_sless_alt)
  moreover have "sint n < 2 ^ 31" using sint_lt [of n] by simp
  ultimately have "- (2 ^ 31) \<le> sint n - 1" "sint n - 1 < 2 ^ 31" by simp_all
  then have "signed_take_bit 31 (sint n - 1) = sint n - 1"
    by (simp add: signed_take_bit_int_eq_self)
  then show ?thesis by (simp add: sint_word_ariths)
qed

lemma length_seed_free:
  "length (seed_free b q d i) = nat (sint (NUM_ENTRIES b - 1) - sint i)"
proof (induction b q d i rule: seed_free.induct)
  case (1 b q d i)
  show ?case
  proof (cases "i <s NUM_ENTRIES b - 1")
    case True
    with 1 have "length (seed_free b q d i)
        = Suc (nat (sint (NUM_ENTRIES b - 1) - sint (i + 1)))"
      by (simp add: seed_free.simps [of b q d i])
    also from True have "\<dots> = nat (sint (NUM_ENTRIES b - 1) - sint i)"
      by (simp add: sint_succ_below [OF True] word_sless_alt)
    finally show ?thesis .
  next
    case False
    then show ?thesis by (simp add: seed_free.simps [of b q d i] word_sless_alt)
  qed
qed

lemma nth_seed_free:
  "k < length (seed_free b q d i) \<Longrightarrow>
     seed_free b q d i ! k =
       Serial_enqueue_free q (d + scast ((i + word_of_nat k + NUM_ENTRIES b) * BUFFER_SIZE b))
         (BUFFER_SIZE b)"
proof (induction b q d i arbitrary: k rule: seed_free.induct)
  case (1 b q d i)
  show ?case
  proof (cases "i <s NUM_ENTRIES b - 1")
    case True
    note unf = seed_free.simps [of b q d i]
    show ?thesis
    proof (cases k)
      case 0
      with True show ?thesis by (simp add: unf)
    next
      case (Suc j)
      with "1.prems" True have "j < length (seed_free b q d (i + 1))" by (simp add: unf)
      from "1.IH" [OF True this] Suc True show ?thesis
        by (simp add: unf add.assoc add.commute add.left_commute)
    qed
  next
    case False
    with "1.prems" show ?thesis by (simp add: seed_free.simps [of b q d i])
  qed
qed

lemma init_trace:
  "\<exists>s'. init b s = Inr s' \<and>
     trace s' = trace s @ Serial_queue_init Serial_rx_queue
                  # seed_free b Serial_rx_queue (serial_rx_data b) 0
                @ Serial_queue_init Serial_tx_queue
                  # seed_free b Serial_tx_queue (serial_tx_data b) 0
                @ (if ENABLE_I2C b then [I2c_queue_init] else [])
                @ [Co_active, Co_derive, Co_switch T_mp, Printf_initialising,
                   Mp_stack_ctrl_init, Gc_init, Mp_init, Init_nfs, Init_networking,
                   case EXEC_MODULE b of None \<Rightarrow> Pyexec_friendly_repl
                                       | Some m \<Rightarrow> Pyexec_frozen_module m]"
  by (simp add: init_def mp_defs Let_def)

lemma step_trace_ext:
  assumes "event_state_inv b s" "callable s c" "step b s c = Inr s'"
  shows "\<exists>l. trace s' = trace s @ l \<and> (\<forall>e\<in>set l. \<not> init_only e)"
proof (cases c)
  case (Notified ch)
  from assms(2) Notified have ev: "co_active s = T_event" by simp
  from notified_idle [OF assms(1) ev, of ch] assms(3) Notified
  have "trace s' = trace s @ [Process_rx, Pyb_lwip_poll, Fs_process_completions]
          @ (if ch \<in> set (case_labels b) then [] else [Printf_unexpected_notification ch])
          @ [if active_events (notified_switch b ch s) AND mp_blocking_events s \<noteq> 0
             then Co_switch T_mp else Mpnet_handle_notify]"
    by auto
  then show ?thesis by (intro exI conjI, assumption) simp
next
  case (Await src)
  with assms(3) have "trace s' = trace s @ (if active_events s AND src \<noteq> 0 then []
      else Co_switch T_event # (if t_event_pc s = In_notified then [Mpnet_handle_notify] else []))"
    by (cases "t_event_pc s") (auto simp: await_def co_switch_t_event_def)
  then show ?thesis by (intro exI conjI, assumption) simp
next
  case Main_loop_returns
  with assms(3) have "trace s' = trace s @ [Gc_sweep_all, Mp_deinit, Printf_exited]
      @ (case EXEC_MODULE b of
           None \<Rightarrow> [Mp_stack_ctrl_init, Gc_init, Mp_init, Init_nfs, Init_networking,
                    Pyexec_friendly_repl]
         | Some m \<Rightarrow> Co_switch T_event
                    # (if t_event_pc s = In_notified then [Mpnet_handle_notify] else []))"
    by (cases "t_event_pc s"; cases "EXEC_MODULE b")
       (auto simp: main_loop_returns_def co_switch_t_event_def start_repl_def Let_def)
  then show ?thesis by (intro exI conjI, assumption) (simp split: option.split)
qed

lemma run_trace_ext:
  assumes "event_state_inv b s" "run b s cs = Some (Inr s')"
  shows "\<exists>l. trace s' = trace s @ l \<and> (\<forall>e\<in>set l. \<not> init_only e)"
  using assms
proof (induction cs arbitrary: s)
  case Nil
  then show ?case by simp
next
  case (Cons c cs)
  from Cons.prems(2) have en: "callable s c" by (simp split: if_splits)
  with Cons.prems(1) obtain s1 where s1: "step b s c = Inr s1" "event_state_inv b s1"
    using step_inv by blast
  with Cons.prems(2) en have r: "run b s1 cs = Some (Inr s')" by simp
  from step_trace_ext [OF Cons.prems(1) en s1(1)] obtain l1 where
    l1: "trace s1 = trace s @ l1" "\<forall>e\<in>set l1. \<not> init_only e" by blast
  from Cons.IH [OF s1(2) r] obtain l2 where
    l2: "trace s' = trace s1 @ l2" "\<forall>e\<in>set l2. \<not> init_only e" by blast
  from l1 l2 show ?case by (intro exI [of _ "l1 @ l2"]) auto
qed

subsection \<open>After the frozen module has returned\<close>

lemma set_seed_free:
  "e \<in> set (seed_free b q d i) \<Longrightarrow> \<exists>a n. e = Serial_enqueue_free q a n"
proof (induction b q d i rule: seed_free.induct)
  case (1 b q d i)
  then show ?case
    by (cases "i <s NUM_ENTRIES b - 1") (auto simp: seed_free.simps [of b q d i])
qed

lemma count_list_absent: "x \<notin> set xs \<Longrightarrow> count_list xs x = 0"
  by (induction xs) auto

lemma boot_count_frozen:
  assumes "EXEC_MODULE b = Some m" "boot b cs = Some (Inr s)"
  shows "count_list (trace s) (Pyexec_frozen_module m) = 1"
proof -
  let ?rx = "seed_free b Serial_rx_queue (serial_rx_data b) 0"
  let ?tx = "seed_free b Serial_tx_queue (serial_tx_data b) 0"
  from init_trace [of b initial_state] assms(1) obtain s0 where
    s0: "init b initial_state = Inr s0"
    "trace s0 = Serial_queue_init Serial_rx_queue # ?rx
                @ Serial_queue_init Serial_tx_queue # ?tx
                @ (if ENABLE_I2C b then [I2c_queue_init] else [])
                @ [Co_active, Co_derive, Co_switch T_mp, Printf_initialising,
                   Mp_stack_ctrl_init, Gc_init, Mp_init, Init_nfs, Init_networking,
                   Pyexec_frozen_module m]"
    by (auto simp: initial_state_def)
  from assms(2) s0(1) have r: "run b s0 cs = Some (Inr s)" by (simp add: boot_def)
  from run_trace_ext [OF init_inv [OF s0(1)] r] obtain l where
    l: "trace s = trace s0 @ l" "\<forall>e\<in>set l. \<not> init_only e" by blast
  from l(2) have "Pyexec_frozen_module m \<notin> set l" by auto
  then have c1: "count_list l (Pyexec_frozen_module m) = 0" by (rule count_list_absent)
  have "Pyexec_frozen_module m \<notin> set ?rx" "Pyexec_frozen_module m \<notin> set ?tx"
    using set_seed_free by blast+
  then have c2: "count_list ?rx (Pyexec_frozen_module m) = 0"
    "count_list ?tx (Pyexec_frozen_module m) = 0"
    by (simp_all add: count_list_absent)
  from l(1) s0(2) c1 c2 show ?thesis by simp
qed

lemma frozen_notified_stays:
  assumes "co_active s = T_event" "t_mp_pc s = At_end" "mp_blocking_events s = 0"
  shows "\<exists>s'. notified b ch s = Inr s' \<and> co_active s' = T_event \<and> t_mp_pc s' = At_end
     \<and> mp_blocking_events s' = 0
     \<and> (\<exists>l. trace s' = trace s @ l \<and> Co_switch T_mp \<notin> set l)"
proof -
  let ?l = "[Process_rx, Pyb_lwip_poll, Fs_process_completions]
          @ (if ch \<in> set (case_labels b) then [] else [Printf_unexpected_notification ch])
          @ [Mpnet_handle_notify]"
  from assms have "notified b ch s = Inr (emit [Mpnet_handle_notify]
      (notified_switch b ch (emit [Process_rx, Pyb_lwip_poll, Fs_process_completions] s)))"
    by (simp add: notified_def Let_def)
  moreover have "trace (emit [Mpnet_handle_notify]
      (notified_switch b ch (emit [Process_rx, Pyb_lwip_poll, Fs_process_completions] s)))
      = trace s @ ?l"
    by (simp add: switch_logged)
  moreover have "Co_switch T_mp \<notin> set ?l" by simp
  ultimately show ?thesis using assms by (intro exI conjI) (assumption | simp)+
qed

lemma frozen_run_stays:
  assumes "co_active s = T_event" "t_mp_pc s = At_end" "mp_blocking_events s = 0"
  shows "\<exists>s'. run b s (map Notified chs) = Some (Inr s') \<and> co_active s' = T_event
     \<and> t_mp_pc s' = At_end
     \<and> (\<exists>l. trace s' = trace s @ l \<and> Co_switch T_mp \<notin> set l)"
  using assms
proof (induction chs arbitrary: s)
  case Nil
  then show ?case by simp
next
  case (Cons ch chs)
  from frozen_notified_stays [OF Cons.prems, of b ch] obtain s1 l1 where
    s1: "notified b ch s = Inr s1" "co_active s1 = T_event" "t_mp_pc s1 = At_end"
    "mp_blocking_events s1 = 0" "trace s1 = trace s @ l1" "Co_switch T_mp \<notin> set l1"
    by blast
  from Cons.IH [OF s1(2,3,4)] obtain s' l2 where
    s': "run b s1 (map Notified chs) = Some (Inr s')" "co_active s' = T_event"
    "t_mp_pc s' = At_end" "trace s' = trace s1 @ l2" "Co_switch T_mp \<notin> set l2"
    by blast
  have "trace s' = trace s @ (l1 @ l2)" "Co_switch T_mp \<notin> set (l1 @ l2)"
    using s1(5,6) s'(4,5) by simp_all
  then have "\<exists>l. trace s' = trace s @ l \<and> Co_switch T_mp \<notin> set l" by blast
  with s1(1) s'(1,2,3) Cons.prems(1) show ?case by simp
qed

text \<open>Evaluating the component on a concrete build.\<close>

lemmas eval_defs = boot_def init_def initial_state_def notified_switch_def mp_defs Let_def
  repl_build_def frozen_build_def seed_free.simps word_sless_alt

section \<open>The claims\<close>

text \<open>
  C1. Slow path of the blocking wait. The interpreter cothread calls \<^verbatim>\<open>await\<close>
  for a non-empty source none of whose bits is pending. Then \<^verbatim>\<open>await\<close> stores the
  source in \<^verbatim>\<open>mp_blocking_events\<close> and switches to the event cothread, which
  finishes what it was doing. Any notifications on channels whose case of the
  \<^verbatim>\<open>switch\<close> leaves the bits of the source alone keep the interpreter stopped there.
  The first notification on a channel whose case sets the source then switches to the
  interpreter cothread in that same call of \<^verbatim>\<open>notified\<close>: the assertion holds,
  \<^verbatim>\<open>mp_blocking_events\<close> is emptied, the bits of the source are cleared again, and
  \<^verbatim>\<open>await\<close> has returned to interpreter code, with no further notification.
\<close>

theorem await_slow_path_single_notification:
  assumes "co_active s = T_mp"
    and "active_events s AND event_source = 0"
    and "event_source \<noteq> 0"
    and "\<forall>c\<in>set chs. \<forall>s0. active_events (notified_switch b c s0) AND event_source
                               = active_events s0 AND event_source"
    and "\<forall>s0. active_events (notified_switch b ch s0) = active_events s0 OR event_source"
  shows "\<exists>s1 s2 s3.
       await b event_source s = Inr s1
     \<and> mp_blocking_events s1 = event_source \<and> co_active s1 = T_event
     \<and> t_mp_pc s1 = In_await event_source \<and> active_events s1 = active_events s
     \<and> trace s1 = trace s @ Co_switch T_event
                    # (if t_event_pc s = In_notified then [Mpnet_handle_notify] else [])
     \<and> run b s1 (map Notified chs) = Some (Inr s2)
     \<and> mp_blocking_events s2 = event_source \<and> co_active s2 = T_event
     \<and> t_mp_pc s2 = In_await event_source \<and> active_events s2 AND event_source = 0
     \<and> notified b ch s2 = Inr s3
     \<and> co_active s3 = T_mp \<and> mp_blocking_events s3 = mp_event_source_none
     \<and> active_events s3 = active_events s2
     \<and> trace s3 = trace s2 @ [Process_rx, Pyb_lwip_poll, Fs_process_completions,
                                Co_switch T_mp]"
proof -
  from await_slow [OF assms(2), of b] obtain s1 where s1: "await b event_source s = Inr s1"
    "waiting event_source s1" "active_events s1 = active_events s"
    "trace s1 = trace s @ Co_switch T_event
                  # (if t_event_pc s = In_notified then [Mpnet_handle_notify] else [])"
    by blast
  from run_others_keeps_waiting [OF s1(2) assms(4)] obtain s2 where
    s2: "run b s1 (map Notified chs) = Some (Inr s2)" "waiting event_source s2" by blast
  from notified_match_resumes [OF s2(2) assms(3,5)] obtain s3 where
    s3: "notified b ch s2 = Inr s3" "co_active s3 = T_mp"
    "mp_blocking_events s3 = mp_event_source_none" "active_events s3 = active_events s2"
    "trace s3 = trace s2 @ [Process_rx, Pyb_lwip_poll, Fs_process_completions, Co_switch T_mp]"
    by blast
  from s1 s2 s3 show ?thesis unfolding waiting_def by blast
qed


theorem await_slow_path_single_notification_witness:
  "\<exists>s s1 s2 s3. boot repl_build [Await 1, Notified 0] = Some (Inr s)
     \<and> co_active s = T_mp \<and> active_events s AND 2 = 0
     \<and> await repl_build 2 s = Inr s1 \<and> mp_blocking_events s1 = 2 \<and> co_active s1 = T_event
     \<and> run repl_build s1 (map Notified [0, 5, 9]) = Some (Inr s2)
     \<and> mp_blocking_events s2 = 2 \<and> co_active s2 = T_event
     \<and> notified repl_build 1 s2 = Inr s3
     \<and> co_active s3 = T_mp \<and> mp_blocking_events s3 = mp_event_source_none
     \<and> active_events s3 = active_events s2"
proof -
  have "\<exists>s. boot repl_build [Await 1, Notified 0] = Some (Inr s)
     \<and> co_active s = T_mp \<and> active_events s AND 2 = 0"
    by (simp add: eval_defs)
  then obtain s where s: "boot repl_build [Await 1, Notified 0] = Some (Inr s)"
    "co_active s = T_mp" "active_events s AND 2 = 0" by blast
  have o: "\<forall>c\<in>set [0, 5, 9]. \<forall>s0. active_events (notified_switch repl_build c s0) AND 2
                               = active_events s0 AND 2"
    by (simp add: notified_switch_def repl_build_def emit_def bit.conj_disj_distrib2)
  have m: "\<forall>s0. active_events (notified_switch repl_build 1 s0) = active_events s0 OR 2"
    by (simp add: notified_switch_def repl_build_def)
  have nz: "(2::c_int) \<noteq> 0" by simp
  from await_slow_path_single_notification [OF s(2,3) nz o m] s show ?thesis
    by (elim exE conjE, intro exI conjI) assumption+
qed

text \<open>
  C2. Fast path of the blocking wait. In every state in which some bit of the awaited
  source is already set in \<^verbatim>\<open>active_events\<close>, \<^verbatim>\<open>await\<close> returns at once: the
  bits of the source, and only those, are cleared in \<^verbatim>\<open>active_events\<close> (for a
  one-bit source, exactly that bit), \<^verbatim>\<open>mp_blocking_events\<close> is untouched, the running
  cothread and both saved program points are the same, and no effect, in particular no
  \<^verbatim>\<open>co_switch\<close>, is added to the trace.
\<close>

theorem await_fast_path:
  assumes "active_events s AND event_source \<noteq> 0"
  shows "\<exists>s'. await b event_source s = Inr s'
           \<and> (\<forall>n. bit (active_events s') n
                  \<longleftrightarrow> bit (active_events s) n \<and> \<not> bit event_source n)
           \<and> mp_blocking_events s' = mp_blocking_events s
           \<and> co_active s' = co_active s
           \<and> t_event_pc s' = t_event_pc s \<and> t_mp_pc s' = t_mp_pc s
           \<and> trace s' = trace s"
  using assms by (auto simp: await_def bit_and_iff bit_not_iff dest: bit_imp_le_length)

theorem await_fast_path_witness:
  "\<exists>s s'. boot repl_build [Await 1, Notified 0, Await 8, Notified 0, Notified 1, Notified 3]
             = Some (Inr s)
      \<and> co_active s = T_mp \<and> active_events s = 3 \<and> active_events s AND 2 \<noteq> 0
      \<and> await repl_build 2 s = Inr s'
      \<and> active_events s' = 1 \<and> mp_blocking_events s' = mp_blocking_events s
      \<and> co_active s' = T_mp \<and> trace s' = trace s"
proof -
  have "\<exists>s. boot repl_build [Await 1, Notified 0, Await 8, Notified 0, Notified 1, Notified 3]
             = Some (Inr s) \<and> co_active s = T_mp \<and> active_events s = 3"
    by (simp add: eval_defs)
  then obtain s where s: "boot repl_build [Await 1, Notified 0, Await 8, Notified 0, Notified 1,
      Notified 3] = Some (Inr s)" "co_active s = T_mp" "active_events s = 3"
    by blast
  from s(3) have h: "active_events s AND 2 \<noteq> 0" by simp
  from await_fast_path [OF h, of repl_build] obtain s' where s': "await repl_build 2 s = Inr s'"
    "\<forall>n. bit (active_events s') n \<longleftrightarrow> bit (active_events s) n \<and> \<not> bit (2::c_int) n"
    "mp_blocking_events s' = mp_blocking_events s" "co_active s' = co_active s"
    "trace s' = trace s"
    by blast
  from s'(1) s(3) have "active_events s' = 1" by (auto simp: await_def)
  with s s' h show ?thesis by auto
qed

text \<open>
  C3. Events are never lost. Take any state \<open>s\<close> the component can reach and any
  calls that follow it (notifications on any channels, calls of \<^verbatim>\<open>await\<close>, returns
  of the main loop), in any number and order. The run does not halt. A bit that is set in
  \<^verbatim>\<open>active_events\<close> at \<open>s\<close> is still set at the end, provided no
  \<^verbatim>\<open>await\<close> among the calls is for a source that contains the bit: only an
  \<^verbatim>\<open>await\<close> for the bit clears it, and a source that is never awaited stays
  pending. A bit that is clear at \<open>s\<close> is still clear at the end, provided no
  notification among the calls is on a channel whose case of the \<^verbatim>\<open>switch\<close> sets the
  bit: only the dispatcher sets bits.
\<close>

theorem events_never_lost:
  assumes "boot b cs = Some (Inr s)" and "run b s cs' = Some r"
  shows "\<exists>s'. r = Inr s'
     \<and> (bit (active_events s) n
          \<and> (\<forall>event_source. Await event_source \<in> set cs' \<longrightarrow> \<not> bit event_source n)
        \<longrightarrow> bit (active_events s') n)
     \<and> (\<not> bit (active_events s) n
          \<and> (\<forall>ch. Notified ch \<in> set cs' \<longrightarrow>
                (\<forall>s0. bit (active_events (notified_switch b ch s0)) n
                       \<longrightarrow> bit (active_events s0) n))
        \<longrightarrow> \<not> bit (active_events s') n)"
proof -
  from assms(1) have i: "event_state_inv b s" using boot_inv by blast
  with assms(2) obtain s' where s': "r = Inr s'" using run_inv by blast
  with assms(2) have r: "run b s cs' = Some (Inr s')" by simp
  from run_keeps_bit [OF i _ _ r] run_keeps_clear [OF i _ _ r] s' show ?thesis by blast
qed

theorem events_never_lost_witness:
  "\<exists>s s'. boot repl_build [Await 1, Notified 1] = Some (Inr s)
      \<and> bit (active_events s) 1 \<and> \<not> bit (active_events s) 3
      \<and> run repl_build s [Notified 1, Notified 6, Notified 0, Await 1, Notified 9, Notified 0,
                           Main_loop_returns, Await 4] = Some (Inr s')
      \<and> bit (active_events s') 1 \<and> \<not> bit (active_events s') 3"
proof -
  let ?cs = "[Notified 1, Notified 6, Notified 0, Await 1, Notified 9, Notified 0,
              Main_loop_returns, Await (4::c_int)]"
  have "\<exists>s. boot repl_build [Await 1, Notified 1] = Some (Inr s) \<and> bit (active_events s) 1
          \<and> \<not> bit (active_events s) 3 \<and> (\<exists>r. run repl_build s ?cs = Some r)"
    by (simp add: eval_defs)
  then obtain s r where s: "boot repl_build [Await 1, Notified 1] = Some (Inr s)"
    and b: "bit (active_events s) 1" "\<not> bit (active_events s) 3"
    and r: "run repl_build s ?cs = Some r"
    by blast
  have a: "\<forall>event_source. Await event_source \<in> set ?cs \<longrightarrow> \<not> bit event_source (1::nat)"
    by simp
  have c: "\<forall>ch. Notified ch \<in> set ?cs \<longrightarrow>
      (\<forall>s0. bit (active_events (notified_switch repl_build ch s0)) 3
             \<longrightarrow> bit (active_events s0) 3)"
    by (auto simp: notified_switch_def repl_build_def bit_or_iff)
  from events_never_lost [OF s r, of 1] obtain s' where s': "r = Inr s'"
    and k1: "bit (active_events s) 1
          \<and> (\<forall>event_source. Await event_source \<in> set ?cs \<longrightarrow> \<not> bit event_source (1::nat))
        \<longrightarrow> bit (active_events s') 1"
    by blast
  from events_never_lost [OF s r, of 3] obtain s'' where s'': "r = Inr s''"
    and k3: "\<not> bit (active_events s) 3
          \<and> (\<forall>ch. Notified ch \<in> set ?cs \<longrightarrow>
                (\<forall>s0. bit (active_events (notified_switch repl_build ch s0)) 3
                       \<longrightarrow> bit (active_events s0) 3))
        \<longrightarrow> \<not> bit (active_events s'') 3"
    by blast
  from s' s'' have e: "s'' = s'" by simp
  from k1 a b(1) have r1: "bit (active_events s') 1" by blast
  from k3 c b(2) e have r3: "\<not> bit (active_events s') 3" by blast
  from r s' have "run repl_build s ?cs = Some (Inr s')" by simp
  with s b r1 r3 show ?thesis by blast
qed

text \<open>
  C4. Step order of the dispatcher. In every state the component can reach with the event
  cothread back in Microkit, and for every channel, \<^verbatim>\<open>notified\<close> does not halt and
  what it does, in order, is: \<^verbatim>\<open>process_rx\<close>, \<^verbatim>\<open>pyb_lwip_poll\<close>,
  \<^verbatim>\<open>fs_process_completions\<close>, whatever the channel; then the \<^verbatim>\<open>switch\<close> on the
  channel (which prints only for a channel that is none of its labels); then
  \<^verbatim>\<open>co_switch(t_mp)\<close> exactly when \<^verbatim>\<open>active_events\<close>, as the
  \<^verbatim>\<open>switch\<close> left it, meets \<^verbatim>\<open>mp_blocking_events\<close>, and otherwise
  \<^verbatim>\<open>mpnet_handle_notify\<close> at once. When it has switched, the interpreter cothread
  runs, and however many calls interpreter code makes before the event cothread runs
  again, \<^verbatim>\<open>mpnet_handle_notify\<close> is called once, right after the
  \<^verbatim>\<open>co_switch(t_event)\<close> that gives control back, and not before.
\<close>

theorem notified_step_order:
  assumes "boot b cs = Some (Inr s)" "co_active s = T_event"
  shows "\<exists>s'. notified b ch s = Inr s'
     \<and> (let hit = (active_events (notified_switch b ch s) AND mp_blocking_events s \<noteq> 0);
            logged = (if ch \<in> set (case_labels b) then []
                      else [Printf_unexpected_notification ch])
        in trace s' = trace s @ [Process_rx, Pyb_lwip_poll, Fs_process_completions] @ logged
                        @ [if hit then Co_switch T_mp else Mpnet_handle_notify]
         \<and> co_active s' = (if hit then T_mp else T_event)
         \<and> (hit \<longrightarrow>
              (\<forall>cs' s''. run b s' cs' = Some (Inr s'') \<and> (\<forall>ch'. Notified ch' \<notin> set cs')
                         \<and> co_active s'' = T_event \<longrightarrow>
                 (\<exists>mid. trace s'' = trace s' @ mid @ [Co_switch T_event, Mpnet_handle_notify]
                      \<and> Mpnet_handle_notify \<notin> set mid \<and> Co_switch T_event \<notin> set mid))))"
proof -
  from assms(1) have i: "event_state_inv b s" using boot_inv by blast
  from notified_idle [OF i assms(2), of ch] obtain s' where s': "notified b ch s = Inr s'"
    "trace s' = trace s @ [Process_rx, Pyb_lwip_poll, Fs_process_completions]
          @ (if ch \<in> set (case_labels b) then [] else [Printf_unexpected_notification ch])
          @ [if active_events (notified_switch b ch s) AND mp_blocking_events s \<noteq> 0
             then Co_switch T_mp else Mpnet_handle_notify]"
    "co_active s' = (if active_events (notified_switch b ch s) AND mp_blocking_events s \<noteq> 0
                       then T_mp else T_event)"
    "active_events (notified_switch b ch s) AND mp_blocking_events s \<noteq> 0
          \<longrightarrow> t_event_pc s' = In_notified"
    by blast
  have later: "\<exists>mid. trace s'' = trace s' @ mid @ [Co_switch T_event, Mpnet_handle_notify]
                      \<and> Mpnet_handle_notify \<notin> set mid \<and> Co_switch T_event \<notin> set mid"
    if hit: "active_events (notified_switch b ch s) AND mp_blocking_events s \<noteq> 0"
      and r: "run b s' cs' = Some (Inr s'')" "\<forall>ch'. Notified ch' \<notin> set cs'"
      and e: "co_active s'' = T_event"
    for cs' s''
  proof -
    from hit s' have "co_active s' = T_mp" "t_event_pc s' = In_notified" by simp_all
    from interpreter_run_until_yield [OF this r] e show ?thesis by auto
  qed
  from s' later show ?thesis unfolding Let_def by blast
qed

theorem notified_step_order_witness:
  "\<exists>s s' s''. boot repl_build [Await 2, Notified 0] = Some (Inr s) \<and> co_active s = T_event
     \<and> notified repl_build 1 s = Inr s'
     \<and> trace s' = trace s @ [Process_rx, Pyb_lwip_poll, Fs_process_completions, Co_switch T_mp]
     \<and> co_active s' = T_mp
     \<and> run repl_build s' [Await 1, Await 8] = Some (Inr s'') \<and> co_active s'' = T_event
     \<and> (\<exists>mid. trace s'' = trace s' @ mid @ [Co_switch T_event, Mpnet_handle_notify]
              \<and> Mpnet_handle_notify \<notin> set mid \<and> Co_switch T_event \<notin> set mid)"
proof -
  have "\<exists>s. boot repl_build [Await 2, Notified 0] = Some (Inr s) \<and> co_active s = T_event
     \<and> active_events (notified_switch repl_build 1 s) AND mp_blocking_events s \<noteq> 0
     \<and> (1::microkit_channel) \<in> set (case_labels repl_build)"
    by (simp add: eval_defs case_labels_def)
  then obtain s where s: "boot repl_build [Await 2, Notified 0] = Some (Inr s)"
    "co_active s = T_event"
    "active_events (notified_switch repl_build 1 s) AND mp_blocking_events s \<noteq> 0"
    "(1::microkit_channel) \<in> set (case_labels repl_build)"
    by blast
  from notified_step_order [OF s(1,2), of 1] s(3,4) obtain s' where
    s': "notified repl_build 1 s = Inr s'"
    "trace s' = trace s @ [Process_rx, Pyb_lwip_poll, Fs_process_completions, Co_switch T_mp]"
    "co_active s' = T_mp"
    and later: "\<forall>cs' s''. run repl_build s' cs' = Some (Inr s'')
        \<and> (\<forall>ch'. Notified ch' \<notin> set cs') \<and> co_active s'' = T_event \<longrightarrow>
          (\<exists>mid. trace s'' = trace s' @ mid @ [Co_switch T_event, Mpnet_handle_notify]
                \<and> Mpnet_handle_notify \<notin> set mid \<and> Co_switch T_event \<notin> set mid)"
    by (auto simp: Let_def)
  have "\<exists>s''. run repl_build s' [Await 1, Await 8] = Some (Inr s'') \<and> co_active s'' = T_event"
    using s(1) s'(1) by (auto simp: eval_defs)
  then obtain s'' where s'': "run repl_build s' [Await 1, Await 8] = Some (Inr s'')"
    "co_active s'' = T_event" by blast
  have "\<forall>ch'. Notified ch' \<notin> set [Await 1, Await (8::c_int)]" by simp
  with later s'' have "\<exists>mid. trace s'' = trace s' @ mid @ [Co_switch T_event, Mpnet_handle_notify]
                \<and> Mpnet_handle_notify \<notin> set mid \<and> Co_switch T_event \<notin> set mid"
    by blast
  with s s' s'' show ?thesis by blast
qed




text \<open>
  C6. Awaited-event discipline. The claim says that \<^verbatim>\<open>mp_blocking_events\<close> holds at
  most one event-source tag. \<^verbatim>\<open>await\<close> stores its argument as it is, whatever mask
  it is given: when interpreter code awaits serial and timer together, the run below
  reaches a state in which \<^verbatim>\<open>mp_blocking_events\<close> holds both tags.
\<close>

theorem awaited_event_single_tag_counterexample:
  "map_option (map_sum id mp_blocking_events) (boot repl_build [Await 3]) = Some (Inr 3)
   \<and> mp_event_source_serial repl_build OR mp_event_source_timer repl_build = 3
   \<and> mp_event_source_serial repl_build \<noteq> mp_event_source_timer repl_build
   \<and> mp_event_source_serial repl_build \<noteq> mp_event_source_none
   \<and> mp_event_source_timer repl_build \<noteq> mp_event_source_none"
  by (simp add: eval_defs)

text \<open>
  C6, as the code has it. In every state the component can reach,
  \<^verbatim>\<open>mp_blocking_events\<close> is empty whenever the interpreter cothread is the running
  one; and whenever it is not empty, the event cothread is running, the interpreter
  cothread is stopped inside \<^verbatim>\<open>await\<close>, and \<^verbatim>\<open>mp_blocking_events\<close> is exactly
  the one mask that call of \<^verbatim>\<open>await\<close> was given. So it holds the source of at most
  one outstanding wait, and a single tag whenever interpreter code awaits single tags: if
  every mask awaited in the run lies in a set \<open>T\<close>, then \<^verbatim>\<open>mp_blocking_events\<close> is
  empty or lies in \<open>T\<close>.
\<close>

theorem awaited_event_discipline:
  assumes "boot b cs = Some (Inr s)"
  shows "(co_active s = T_mp \<longrightarrow> mp_blocking_events s = mp_event_source_none)
       \<and> (mp_blocking_events s \<noteq> mp_event_source_none \<longrightarrow>
            co_active s = T_event \<and> t_mp_pc s = In_await (mp_blocking_events s)
            \<and> Await (mp_blocking_events s) \<in> set cs)
       \<and> ((\<forall>event_source. Await event_source \<in> set cs \<longrightarrow> event_source \<in> T) \<longrightarrow>
            mp_blocking_events s = mp_event_source_none \<or> mp_blocking_events s \<in> T)"
proof -
  from assms have i: "event_state_inv b s" using boot_inv by blast
  obtain s0 where s0: "init b initial_state = Inr s0" using init_ok by blast
  then have b0: "mp_blocking_events s0 = 0"
    by (auto simp: init_def initial_state_def mp_defs Let_def split: if_splits)
  from assms s0 have "run b s0 cs = Some (Inr s)" by (simp add: boot_def)
  from run_blocking [OF this] b0
  have aw: "mp_blocking_events s = 0 \<or> Await (mp_blocking_events s) \<in> set cs" by auto
  from i have "co_active s = T_mp \<longrightarrow> mp_blocking_events s = 0"
    by (auto simp: event_state_inv_def)
  moreover from i have "mp_blocking_events s \<noteq> 0 \<longrightarrow>
      co_active s = T_event \<and> t_mp_pc s = In_await (mp_blocking_events s)"
    by (cases "co_active s"; cases "t_mp_pc s") (auto simp: event_state_inv_def)
  ultimately show ?thesis using aw unfolding mp_event_source_none_def by blast
qed

theorem awaited_event_discipline_witness:
  "\<exists>s. boot repl_build [Await 1, Notified 0, Await 8, Notified 1] = Some (Inr s)
     \<and> mp_blocking_events s = 8 \<and> co_active s = T_event \<and> t_mp_pc s = In_await 8
     \<and> (mp_blocking_events s = mp_event_source_none \<or> mp_blocking_events s \<in> {1, 8})"
proof -
  have "\<exists>s. boot repl_build [Await 1, Notified 0, Await 8, Notified 1] = Some (Inr s)
          \<and> mp_blocking_events s = 8"
    by (simp add: eval_defs)
  then obtain s where s: "boot repl_build [Await 1, Notified 0, Await 8, Notified 1] = Some (Inr s)"
    "mp_blocking_events s = 8" by blast
  have "\<forall>event_source. Await event_source \<in> set [Await 1, Notified 0, Await 8, Notified 1]
      \<longrightarrow> event_source \<in> {1, 8::c_int}"
    by simp
  with awaited_event_discipline [OF s(1), of "{1, 8}"] s show ?thesis
    by (auto simp: mp_event_source_none_def)
qed

text \<open>
  C7. Unknown channels are harmless. For a channel that is none of the labels of the
  \<^verbatim>\<open>switch\<close>, the \<^verbatim>\<open>switch\<close> prints the channel and changes nothing else, in
  any state, so \<^verbatim>\<open>active_events\<close> is as it was. In every state the component can
  reach with the event cothread back in Microkit, the whole call of \<^verbatim>\<open>notified\<close>
  returns normally: it runs the three pump routines, prints the channel, calls
  \<^verbatim>\<open>mpnet_handle_notify\<close>, and leaves every variable of the state as it was.
\<close>

theorem unknown_channel_harmless:
  assumes "boot b cs = Some (Inr s)" "co_active s = T_event" "ch \<notin> set (case_labels b)"
  shows "(\<forall>s0. notified_switch b ch s0 = emit [Printf_unexpected_notification ch] s0)
       \<and> notified b ch s = Inr (emit [Process_rx, Pyb_lwip_poll, Fs_process_completions,
                                       Printf_unexpected_notification ch,
                                       Mpnet_handle_notify] s)"
proof -
  from assms(1) have i: "event_state_inv b s" using boot_inv by blast
  from idle_no_hit [OF i assms(2)] have "active_events s AND mp_blocking_events s = 0" .
  with assms(3) show ?thesis
    by (simp add: notified_def Let_def switch_unknown emit_emit)
qed

theorem unknown_channel_harmless_witness:
  "\<exists>s. boot repl_build [Await 2, Notified 0] = Some (Inr s) \<and> co_active s = T_event
     \<and> (77::microkit_channel) \<notin> set (case_labels repl_build)
     \<and> notified repl_build 77 s = Inr (emit [Process_rx, Pyb_lwip_poll, Fs_process_completions,
                                              Printf_unexpected_notification 77,
                                              Mpnet_handle_notify] s)
     \<and> active_events (notified_switch repl_build 77 s) = active_events s"
proof -
  have "\<exists>s. boot repl_build [Await 2, Notified 0] = Some (Inr s) \<and> co_active s = T_event"
    by (simp add: eval_defs)
  then obtain s where s: "boot repl_build [Await 2, Notified 0] = Some (Inr s)"
    "co_active s = T_event" by blast
  have u: "(77::microkit_channel) \<notin> set (case_labels repl_build)"
    by (simp add: case_labels_def repl_build_def)
  from unknown_channel_harmless [OF s u] s u show ?thesis by auto
qed

text \<open>
  C8. Bootstrap seeding count. In every state the component can reach, the trace begins
  with \<^verbatim>\<open>init\<close>'s work on the two serial queues: the receive queue is initialised
  and \<^verbatim>\<open>serial_enqueue_free\<close> is called on it once for every value of the counter
  from 0 up to, and not including, \<^verbatim>\<open>NUM_ENTRIES - 1\<close>, then the same for the transmit
  queue. For a positive \<^verbatim>\<open>NUM_ENTRIES\<close> that is exactly \<^verbatim>\<open>NUM_ENTRIES - 1\<close> calls
  per queue, 3 of them when \<^verbatim>\<open>NUM_ENTRIES = 4\<close>. Call number \<open>i\<close> passes the base
  address of the queue's data region plus the offset \<^verbatim>\<open>(i + NUM_ENTRIES) * BUFFER_SIZE\<close>,
  computed in 32-bit \<^verbatim>\<open>int\<close> and sign-extended, and the length \<^verbatim>\<open>BUFFER_SIZE\<close>.
  Nothing after that prefix, so nothing any notification does, is a call of
  \<^verbatim>\<open>serial_enqueue_free\<close>.
\<close>

theorem bootstrap_seeding_count:
  assumes "boot b cs = Some (Inr s)"
  shows "\<exists>rx tx rest.
       trace s = Serial_queue_init Serial_rx_queue # rx
                 @ Serial_queue_init Serial_tx_queue # tx @ rest
     \<and> length rx = nat (sint (NUM_ENTRIES b - 1)) \<and> length tx = nat (sint (NUM_ENTRIES b - 1))
     \<and> (0 <s NUM_ENTRIES b \<longrightarrow>
           int (length rx) = sint (NUM_ENTRIES b) - 1
         \<and> int (length tx) = sint (NUM_ENTRIES b) - 1)
     \<and> (\<forall>i<length rx. rx ! i =
           Serial_enqueue_free Serial_rx_queue
             (serial_rx_data b + scast ((word_of_nat i + NUM_ENTRIES b) * BUFFER_SIZE b))
             (BUFFER_SIZE b))
     \<and> (\<forall>i<length tx. tx ! i =
           Serial_enqueue_free Serial_tx_queue
             (serial_tx_data b + scast ((word_of_nat i + NUM_ENTRIES b) * BUFFER_SIZE b))
             (BUFFER_SIZE b))
     \<and> (\<forall>q a n. Serial_enqueue_free q a n \<notin> set rest)"
proof -
  let ?rx = "seed_free b Serial_rx_queue (serial_rx_data b) 0"
  let ?tx = "seed_free b Serial_tx_queue (serial_tx_data b) 0"
  let ?r0 = "(if ENABLE_I2C b then [I2c_queue_init] else [])
                @ [Co_active, Co_derive, Co_switch T_mp, Printf_initialising,
                   Mp_stack_ctrl_init, Gc_init, Mp_init, Init_nfs, Init_networking,
                   case EXEC_MODULE b of None \<Rightarrow> Pyexec_friendly_repl
                                       | Some m \<Rightarrow> Pyexec_frozen_module m]"
  from init_trace [of b initial_state] obtain s0 where s0: "init b initial_state = Inr s0"
    "trace s0 = Serial_queue_init Serial_rx_queue # ?rx
                @ Serial_queue_init Serial_tx_queue # ?tx @ ?r0"
    by (auto simp: initial_state_def)
  from assms s0(1) have r: "run b s0 cs = Some (Inr s)" by (simp add: boot_def)
  from run_trace_ext [OF init_inv [OF s0(1)] r] obtain l where
    l: "trace s = trace s0 @ l" "\<forall>e\<in>set l. \<not> init_only e" by blast
  have t: "trace s = Serial_queue_init Serial_rx_queue # ?rx
                @ Serial_queue_init Serial_tx_queue # ?tx @ (?r0 @ l)"
    using l(1) s0(2) by simp
  have n: "\<forall>q a n. Serial_enqueue_free q a n \<notin> set (?r0 @ l)"
    using l(2) by (auto split: option.splits)
  have ix: "\<forall>i<length ?rx. ?rx ! i =
           Serial_enqueue_free Serial_rx_queue
             (serial_rx_data b + scast ((word_of_nat i + NUM_ENTRIES b) * BUFFER_SIZE b))
             (BUFFER_SIZE b)"
    by (simp add: nth_seed_free)
  have it: "\<forall>i<length ?tx. ?tx ! i =
           Serial_enqueue_free Serial_tx_queue
             (serial_tx_data b + scast ((word_of_nat i + NUM_ENTRIES b) * BUFFER_SIZE b))
             (BUFFER_SIZE b)"
    by (simp add: nth_seed_free)
  have lx: "length ?rx = nat (sint (NUM_ENTRIES b - 1))"
    "length ?tx = nat (sint (NUM_ENTRIES b - 1))"
    by (simp_all add: length_seed_free)
  have lp: "0 <s NUM_ENTRIES b \<longrightarrow>
           int (length ?rx) = sint (NUM_ENTRIES b) - 1
         \<and> int (length ?tx) = sint (NUM_ENTRIES b) - 1"
  proof
    assume p: "0 <s NUM_ENTRIES b"
    then have "0 < sint (NUM_ENTRIES b)" by (simp add: word_sless_alt)
    with sint_pred_positive [OF p] lx
    show "int (length ?rx) = sint (NUM_ENTRIES b) - 1
        \<and> int (length ?tx) = sint (NUM_ENTRIES b) - 1"
      by simp
  qed
  from t lx lp ix it n show ?thesis by blast
qed

theorem bootstrap_seeding_count_witness:
  "NUM_ENTRIES repl_build = 4 \<and>
   (\<exists>s rx tx rest. boot repl_build [Await 1, Notified 0, Await 2, Notified 1] = Some (Inr s)
     \<and> trace s = Serial_queue_init Serial_rx_queue # rx
                 @ Serial_queue_init Serial_tx_queue # tx @ rest
     \<and> length rx = 3 \<and> length tx = 3
     \<and> rx ! 0 = Serial_enqueue_free Serial_rx_queue 0x3002000 2048
     \<and> (\<forall>q a n. Serial_enqueue_free q a n \<notin> set rest))"
proof -
  have "\<exists>s. boot repl_build [Await 1, Notified 0, Await 2, Notified 1] = Some (Inr s)"
    by (simp add: eval_defs)
  then obtain s where s: "boot repl_build [Await 1, Notified 0, Await 2, Notified 1]
      = Some (Inr s)" by blast
  have n: "NUM_ENTRIES repl_build = 4" "BUFFER_SIZE repl_build = 2048"
    "serial_rx_data repl_build = 0x3000000"
    by (simp_all add: repl_build_def)
  from bootstrap_seeding_count [OF s] obtain rx tx rest where
    w: "trace s = Serial_queue_init Serial_rx_queue # rx
                 @ Serial_queue_init Serial_tx_queue # tx @ rest"
    "length rx = nat (sint (NUM_ENTRIES repl_build - 1))"
    "length tx = nat (sint (NUM_ENTRIES repl_build - 1))"
    "\<forall>i<length rx. rx ! i =
           Serial_enqueue_free Serial_rx_queue
             (serial_rx_data repl_build
                + scast ((word_of_nat i + NUM_ENTRIES repl_build) * BUFFER_SIZE repl_build))
             (BUFFER_SIZE repl_build)"
    "\<forall>q a n. Serial_enqueue_free q a n \<notin> set rest"
    by blast
  from w(2,3) n(1) have len: "length rx = 3" "length tx = 3" by simp_all
  from w(4) len(1) have "rx ! 0 = Serial_enqueue_free Serial_rx_queue
             (serial_rx_data repl_build
                + scast ((word_of_nat 0 + NUM_ENTRIES repl_build) * BUFFER_SIZE repl_build))
             (BUFFER_SIZE repl_build)"
    by simp
  with n have r0: "rx ! 0 = Serial_enqueue_free Serial_rx_queue 0x3002000 2048" by simp
  from n(1) s w(1,5) len r0 show ?thesis by blast
qed

text \<open>
  C9. Interpreter exit by build. In every state the component can reach with the
  interpreter cothread running, the return of the main loop is followed by the teardown
  (\<^verbatim>\<open>gc_sweep_all\<close>, \<^verbatim>\<open>mp_deinit\<close>, the exit message). In the REPL build the
  runtime is then initialised again and \<^verbatim>\<open>pyexec_friendly_repl\<close> is called again, the
  interpreter cothread keeps running and no \<^verbatim>\<open>co_switch\<close> happens. In the
  frozen-module build the cothread switches to the event cothread from the last line of its
  entry function, and whatever notifications follow, none of them switches back: the event
  cothread stays the running one, and \<^verbatim>\<open>pyexec_frozen_module\<close> has been called exactly
  once in the whole trace.
\<close>

theorem interpreter_exit_by_build:
  assumes "boot b cs = Some (Inr s)" "co_active s = T_mp"
  shows "\<exists>s'. main_loop_returns b s = Inr s' \<and>
     (case EXEC_MODULE b of
        None \<Rightarrow>
          s' = emit [Gc_sweep_all, Mp_deinit, Printf_exited, Mp_stack_ctrl_init, Gc_init,
                     Mp_init, Init_nfs, Init_networking, Pyexec_friendly_repl] s
      | Some m \<Rightarrow>
          co_active s' = T_event \<and> t_mp_pc s' = At_end
          \<and> trace s' = trace s @ [Gc_sweep_all, Mp_deinit, Printf_exited, Co_switch T_event]
               @ (if t_event_pc s = In_notified then [Mpnet_handle_notify] else [])
          \<and> (\<forall>chs. \<exists>s''. run b s' (map Notified chs) = Some (Inr s'')
                \<and> co_active s'' = T_event \<and> t_mp_pc s'' = At_end
                \<and> (\<exists>l. trace s'' = trace s' @ l \<and> Co_switch T_mp \<notin> set l)
                \<and> count_list (trace s'') (Pyexec_frozen_module m) = 1))"
proof (cases "EXEC_MODULE b")
  case None
  then show ?thesis
    by (simp add: main_loop_returns_def start_repl_def Let_def emit_emit)
next
  case (Some m)
  from assms(1) have i: "event_state_inv b s" using boot_inv by blast
  with assms(2) have bl: "mp_blocking_events s = 0" by (simp add: event_state_inv_def)
  let ?s' = "co_switch_t_event At_end (emit [Gc_sweep_all, Mp_deinit, Printf_exited] s)"
  from Some have m: "main_loop_returns b s = Inr ?s'"
    by (simp add: main_loop_returns_def Let_def)
  have f: "co_active ?s' = T_event" "t_mp_pc ?s' = At_end" "mp_blocking_events ?s' = 0"
    "trace ?s' = trace s @ [Gc_sweep_all, Mp_deinit, Printf_exited, Co_switch T_event]
               @ (if t_event_pc s = In_notified then [Mpnet_handle_notify] else [])"
    using bl by (cases "t_event_pc s"; simp add: co_switch_t_event_def)+
  have later: "\<exists>s''. run b ?s' (map Notified chs) = Some (Inr s'')
                \<and> co_active s'' = T_event \<and> t_mp_pc s'' = At_end
                \<and> (\<exists>l. trace s'' = trace ?s' @ l \<and> Co_switch T_mp \<notin> set l)
                \<and> count_list (trace s'') (Pyexec_frozen_module m) = 1" for chs
  proof -
    from frozen_run_stays [OF f(1,2,3), of b chs] obtain s'' where
      s'': "run b ?s' (map Notified chs) = Some (Inr s'')" "co_active s'' = T_event"
      "t_mp_pc s'' = At_end" "\<exists>l. trace s'' = trace ?s' @ l \<and> Co_switch T_mp \<notin> set l"
      by blast
    from assms(2) have en: "callable s Main_loop_returns" by simp
    from m have st: "step b s Main_loop_returns = Inr ?s'" by simp
    from main_loop_returns_inv [OF i assms(2)] m have i': "event_state_inv b ?s'" by simp
    from step_trace_ext [OF i en st] obtain l1 where
      l1: "trace ?s' = trace s @ l1" "\<forall>e\<in>set l1. \<not> init_only e" by blast
    from run_trace_ext [OF i' s''(1)] obtain l2 where
      l2: "trace s'' = trace ?s' @ l2" "\<forall>e\<in>set l2. \<not> init_only e" by blast
    from l1(2) l2(2) have "Pyexec_frozen_module m \<notin> set l1" "Pyexec_frozen_module m \<notin> set l2"
      by auto
    then have "count_list l1 (Pyexec_frozen_module m) = 0"
      "count_list l2 (Pyexec_frozen_module m) = 0"
      by (simp_all add: count_list_absent)
    with l1(1) l2(1) boot_count_frozen [OF Some assms(1)]
    have "count_list (trace s'') (Pyexec_frozen_module m) = 1" by simp
    with s'' show ?thesis by blast
  qed
  from m f later Some show ?thesis by simp
qed

theorem interpreter_exit_by_build_witness:
  "(\<exists>s s'. boot repl_build [Await 1, Notified 0] = Some (Inr s) \<and> co_active s = T_mp
       \<and> main_loop_returns repl_build s = Inr s' \<and> co_active s' = T_mp
       \<and> trace s' = trace s @ [Gc_sweep_all, Mp_deinit, Printf_exited, Mp_stack_ctrl_init,
                                 Gc_init, Mp_init, Init_nfs, Init_networking,
                                 Pyexec_friendly_repl])
   \<and> (\<exists>s s' s''. boot frozen_build [Await 1, Notified 0] = Some (Inr s) \<and> co_active s = T_mp
       \<and> main_loop_returns frozen_build s = Inr s' \<and> co_active s' = T_event
       \<and> t_mp_pc s' = At_end
       \<and> trace s' = trace s @ [Gc_sweep_all, Mp_deinit, Printf_exited, Co_switch T_event,
                                 Mpnet_handle_notify]
       \<and> run frozen_build s' (map Notified [0, 1, 3, 5, 9]) = Some (Inr s'')
       \<and> co_active s'' = T_event \<and> t_mp_pc s'' = At_end
       \<and> count_list (trace s'') (Pyexec_frozen_module ''main.py'') = 1)"
proof -
  have "\<exists>s. boot repl_build [Await 1, Notified 0] = Some (Inr s) \<and> co_active s = T_mp"
    by (simp add: eval_defs)
  then obtain s where s: "boot repl_build [Await 1, Notified 0] = Some (Inr s)"
    "co_active s = T_mp" by blast
  have e: "EXEC_MODULE repl_build = None" by (simp add: repl_build_def)
  from interpreter_exit_by_build [OF s] e s have
    A: "\<exists>s s'. boot repl_build [Await 1, Notified 0] = Some (Inr s) \<and> co_active s = T_mp
       \<and> main_loop_returns repl_build s = Inr s' \<and> co_active s' = T_mp
       \<and> trace s' = trace s @ [Gc_sweep_all, Mp_deinit, Printf_exited, Mp_stack_ctrl_init,
                                 Gc_init, Mp_init, Init_nfs, Init_networking,
                                 Pyexec_friendly_repl]"
    by auto
  have "\<exists>s. boot frozen_build [Await 1, Notified 0] = Some (Inr s) \<and> co_active s = T_mp
     \<and> t_event_pc s = In_notified"
    by (simp add: eval_defs)
  then obtain t where t: "boot frozen_build [Await 1, Notified 0] = Some (Inr t)"
    "co_active t = T_mp" "t_event_pc t = In_notified" by blast
  have f: "EXEC_MODULE frozen_build = Some ''main.py''"
    by (simp add: frozen_build_def repl_build_def)
  from interpreter_exit_by_build [OF t(1,2)] f t(3) obtain t' where
    t': "main_loop_returns frozen_build t = Inr t'" "co_active t' = T_event"
    "t_mp_pc t' = At_end"
    "trace t' = trace t @ [Gc_sweep_all, Mp_deinit, Printf_exited, Co_switch T_event,
                                 Mpnet_handle_notify]"
    and later: "\<forall>chs. \<exists>s''. run frozen_build t' (map Notified chs) = Some (Inr s'')
                \<and> co_active s'' = T_event \<and> t_mp_pc s'' = At_end
                \<and> (\<exists>l. trace s'' = trace t' @ l \<and> Co_switch T_mp \<notin> set l)
                \<and> count_list (trace s'') (Pyexec_frozen_module ''main.py'') = 1"
    by auto
  from later obtain t'' where "run frozen_build t' (map Notified [0, 1, 3, 5, 9]) = Some (Inr t'')"
    "co_active t'' = T_event" "t_mp_pc t'' = At_end"
    "count_list (trace t'') (Pyexec_frozen_module ''main.py'') = 1"
    by blast
  with t t' have
    B: "\<exists>s s' s''. boot frozen_build [Await 1, Notified 0] = Some (Inr s) \<and> co_active s = T_mp
       \<and> main_loop_returns frozen_build s = Inr s' \<and> co_active s' = T_event
       \<and> t_mp_pc s' = At_end
       \<and> trace s' = trace s @ [Gc_sweep_all, Mp_deinit, Printf_exited, Co_switch T_event,
                                 Mpnet_handle_notify]
       \<and> run frozen_build s' (map Notified [0, 1, 3, 5, 9]) = Some (Inr s'')
       \<and> co_active s'' = T_event \<and> t_mp_pc s'' = At_end
       \<and> count_list (trace s'') (Pyexec_frozen_module ''main.py'') = 1"
    by blast
  from A B show ?thesis by blast
qed

text \<open>
  C10. The ethernet channels. In a build whose \<^verbatim>\<open>switch\<close> labels are distinct, the
  \<^verbatim>\<open>switch\<close> does nothing at all for \<^verbatim>\<open>ETH_RX_CH\<close> and \<^verbatim>\<open>ETH_TX_CH\<close>, in
  any state: nothing is printed and \<^verbatim>\<open>active_events\<close> is unchanged. In every state the
  component can reach with the event cothread back in Microkit, a notification on one of
  them runs the three pump routines and \<^verbatim>\<open>mpnet_handle_notify\<close> and returns without
  switching to the interpreter cothread, so an interpreter stopped in \<^verbatim>\<open>await\<close> stays
  stopped.
\<close>

theorem ethernet_channels_set_no_event:
  assumes "distinct (case_labels b)" "ch = ETH_RX_CH b \<or> ch = ETH_TX_CH b"
    and "boot b cs = Some (Inr s)" "co_active s = T_event"
  shows "(\<forall>s0. notified_switch b ch s0 = s0)
       \<and> notified b ch s = Inr (emit [Process_rx, Pyb_lwip_poll, Fs_process_completions,
                                       Mpnet_handle_notify] s)"
proof -
  from assms(3) have i: "event_state_inv b s" using boot_inv by blast
  from idle_no_hit [OF i assms(4)] have "active_events s AND mp_blocking_events s = 0" .
  then show ?thesis
    by (simp add: notified_def Let_def switch_ethernet [OF assms(1,2)] emit_emit)
qed

theorem ethernet_channels_set_no_event_witness:
  "\<exists>s. boot repl_build [Await 2, Notified 0] = Some (Inr s) \<and> co_active s = T_event
     \<and> distinct (case_labels repl_build)
     \<and> notified_switch repl_build 5 s = s
     \<and> notified repl_build 6 s = Inr (emit [Process_rx, Pyb_lwip_poll, Fs_process_completions,
                                             Mpnet_handle_notify] s)"
proof -
  have "\<exists>s. boot repl_build [Await 2, Notified 0] = Some (Inr s) \<and> co_active s = T_event"
    by (simp add: eval_defs)
  then obtain s where s: "boot repl_build [Await 2, Notified 0] = Some (Inr s)"
    "co_active s = T_event" by blast
  have d: "distinct (case_labels repl_build)"
    by (simp add: case_labels_def repl_build_def)
  have rx: "(5::microkit_channel) = ETH_RX_CH repl_build \<or> 5 = ETH_TX_CH repl_build"
    and tx: "(6::microkit_channel) = ETH_RX_CH repl_build \<or> 6 = ETH_TX_CH repl_build"
    by (simp_all add: repl_build_def)
  from ethernet_channels_set_no_event [OF d rx s] ethernet_channels_set_no_event [OF d tx s]
    s d show ?thesis by auto
qed

end
